theory Spec2Isabelle
  imports Main "HOL-Library.Sublist"
begin


section \<open>JavaScript strings and arrays\<close>

text \<open>
  The executor of \<^verbatim>\<open>src/agent/tools.ts\<close> works on JavaScript strings. A string is
  modelled as a list of characters (one \<^typ>\<open>char\<close> per code unit), and the few
  methods of \<^verbatim>\<open>String.prototype\<close> and \<^verbatim>\<open>Array.prototype\<close> that the code calls are
  written out below with the behaviour ECMAScript gives them.
\<close>

text \<open>\<^verbatim>\<open>s.startsWith(p)\<close>\<close>

fun startsWith :: "string \<Rightarrow> string \<Rightarrow> bool" where
  "startsWith [] s = True"
| "startsWith (p # ps) [] = False"
| "startsWith (p # ps) (c # cs) = (p = c \<and> startsWith ps cs)"

text \<open>\<^verbatim>\<open>s.indexOf(p)\<close>, with \<open>None\<close> for the result \<open>-1\<close>; \<^verbatim>\<open>s.includes(p)\<close>.\<close>

fun indexOf :: "string \<Rightarrow> string \<Rightarrow> nat option" where
  "indexOf p [] = (if startsWith p [] then Some 0 else None)"
| "indexOf p (c # cs) =
     (if startsWith p (c # cs) then Some 0 else map_option Suc (indexOf p cs))"

definition includesStr :: "string \<Rightarrow> string \<Rightarrow> bool" where
  "includesStr s p = (indexOf p s \<noteq> None)"

text \<open>
  \<^verbatim>\<open>GetSubstitution\<close> of ECMAScript for a string pattern: there are no captures, so
  the only replacement patterns that expand are \<^verbatim>\<open>$$\<close>, \<^verbatim>\<open>$&\<close>, \<^verbatim>\<open>$`\<close> and \<^verbatim>\<open>$'\<close>;
  every other character (a dollar sign before a digit or before \<^verbatim>\<open><\<close> included) is
  copied as it is.
\<close>

fun getSubstitution :: "string \<Rightarrow> string \<Rightarrow> string \<Rightarrow> string \<Rightarrow> string" where
  "getSubstitution matched pre post [] = []"
| "getSubstitution matched pre post [c] = [c]"
| "getSubstitution matched pre post (c # d # r) =
     (if c = CHR ''$'' \<and> d = CHR ''$'' then CHR ''$'' # getSubstitution matched pre post r
      else if c = CHR ''$'' \<and> d = CHR ''&'' then matched @ getSubstitution matched pre post r
      else if c = CHR ''$'' \<and> d = CHR 0x60 then pre @ getSubstitution matched pre post r
      else if c = CHR ''$'' \<and> d = CHR 0x27 then post @ getSubstitution matched pre post r
      else c # getSubstitution matched pre post (d # r))"

text \<open>\<^verbatim>\<open>s.replace(p, r)\<close> with a string pattern \<open>p\<close>: the first occurrence only.\<close>

definition replace :: "string \<Rightarrow> string \<Rightarrow> string \<Rightarrow> string" where
  "replace s p r =
     (case indexOf p s of
        None \<Rightarrow> s
      | Some i \<Rightarrow>
          take i s @ getSubstitution p (take i s) (drop (i + length p) s) r
            @ drop (i + length p) s)"

text \<open>\<^verbatim>\<open>s.split(sep)\<close> for a one-character separator, and \<^verbatim>\<open>xs.join(sep)\<close>.\<close>

fun split :: "char \<Rightarrow> string \<Rightarrow> string list" where
  "split sep [] = [[]]"
| "split sep (c # cs) =
     (if c = sep then [] # split sep cs
      else (c # hd (split sep cs)) # tl (split sep cs))"

fun join :: "string \<Rightarrow> string list \<Rightarrow> string" where
  "join sep [] = []"
| "join sep [x] = x"
| "join sep (x # y # ys) = x @ sep @ join sep (y # ys)"

text \<open>
  \<^verbatim>\<open>xs.slice(start, end)\<close> on integral arguments: a negative index counts from the
  end, both indices are clamped to the array, \<open>None\<close> is an omitted \<open>end\<close>.
\<close>

definition slice :: "int \<Rightarrow> int option \<Rightarrow> 'a list \<Rightarrow> 'a list" where
  "slice start end xs =
     (let len = int (length xs);
          k = (if start < 0 then max (len + start) 0 else min start len);
          fin = (case end of
                   None \<Rightarrow> len
                 | Some e \<Rightarrow> if e < 0 then max (len + e) 0 else min e len)
      in take (nat (fin - k)) (drop (nat k) xs))"

text \<open>Decimal rendering of a number, as \<^verbatim>\<open>String(n)\<close> gives it for an integer.\<close>

definition digit :: "nat \<Rightarrow> char" where
  "digit d = char_of (48 + d)"

function decimal :: "nat \<Rightarrow> string" where
  "decimal n = (if n < 10 then [digit n] else decimal (n div 10) @ [digit (n mod 10)])"
  by pat_completeness auto
termination
  by (relation "measure id") auto

declare decimal.simps [simp del]

definition numberToString :: "int \<Rightarrow> string" where
  "numberToString n = (if n < 0 then CHR ''-'' # decimal (nat (- n)) else decimal (nat n))"

section \<open>Paths\<close>

text \<open>
  The executor runs on POSIX paths. An absolute, normalised path (what
  \<^verbatim>\<open>path.resolve\<close> returns) is the list of its segments; a path argument coming from
  the model is a string.
\<close>

type_synonym path = "string list"

definition isAbsolute :: "string \<Rightarrow> bool" where
  "isAbsolute p = startsWith ''/'' p"

text \<open>
  \<^verbatim>\<open>normalizeString\<close> of Node's \<^verbatim>\<open>path\<close> module on an absolute path: empty segments and
  \<^verbatim>\<open>.\<close> are skipped, \<^verbatim>\<open>..\<close> removes the last segment and is dropped at the root.
\<close>

fun normalizeString :: "path \<Rightarrow> string list \<Rightarrow> path" where
  "normalizeString acc [] = acc"
| "normalizeString acc (s # ss) =
     (if s = [] \<or> s = ''.'' then normalizeString acc ss
      else if s = ''..'' then normalizeString (butlast acc) ss
      else normalizeString (acc @ [s]) ss)"

text \<open>
  \<^verbatim>\<open>path.resolve(projectRoot, p)\<close>, where \<open>projectRoot\<close> is already resolved: an
  absolute \<open>p\<close> replaces the root, any other \<open>p\<close> (the empty string too) is appended
  to it, and the result is normalised.
\<close>

definition resolve :: "path \<Rightarrow> string \<Rightarrow> path" where
  "resolve projectRoot p =
     normalizeString (if isAbsolute p then [] else projectRoot) (split CHR ''/'' p)"

text \<open>
  \<^verbatim>\<open>path.relative(from, to)\<close> on two resolved paths: one \<^verbatim>\<open>..\<close> for every segment of
  \<open>from\<close> below the common prefix, then the rest of \<open>to\<close>.
\<close>

fun relativeSegments :: "path \<Rightarrow> path \<Rightarrow> string list" where
  "relativeSegments [] to = to"
| "relativeSegments (f # fs) [] = replicate (length (f # fs)) ''..''"
| "relativeSegments (f # fs) (t # ts) =
     (if f = t then relativeSegments fs ts
      else replicate (length (f # fs)) ''..'' @ (t # ts))"

definition relative :: "path \<Rightarrow> path \<Rightarrow> string" where
  "relative from to = join ''/'' (relativeSegments from to)"

text \<open>\<^verbatim>\<open>path.dirname\<close> of a resolved path; the root is its own parent.\<close>

definition dirname :: "path \<Rightarrow> path" where
  "dirname p = butlast p"

section \<open>Errors and the file system\<close>

text \<open>
  A thrown JavaScript \<^verbatim>\<open>Error\<close> is a value carrying its message; \<^verbatim>\<open>String(err)\<close>
  renders it. The failures of the \<^verbatim>\<open>fs\<close> calls are errors whose message starts with
  the POSIX code.
\<close>

datatype js_error = Error string

fun errorToString :: "js_error \<Rightarrow> string" where
  "errorToString (Error m) = ''Error: '' @ m"

definition ENOENT :: js_error where
  "ENOENT = Error ''ENOENT: no such file or directory''"

definition ENOTDIR :: js_error where
  "ENOTDIR = Error ''ENOTDIR: not a directory''"

definition EISDIR :: js_error where
  "EISDIR = Error ''EISDIR: illegal operation on a directory''"

definition EEXIST :: js_error where
  "EEXIST = Error ''EEXIST: file already exists''"

text \<open>
  The file system is a tree: a file with its text, or a directory with its entries in
  the order \<^verbatim>\<open>readdirSync\<close> lists them. The value of type \<open>node\<close> that the
  operations thread through is the whole tree under \<^verbatim>\<open>/\<close>.
\<close>

datatype node = File string | Dir "(string \<times> node) list"

fun lookup :: "node \<Rightarrow> path \<Rightarrow> node option" where
  "lookup n [] = Some n"
| "lookup (File c) (s # ss) = None"
| "lookup (Dir es) (s # ss) =
     (case map_of es s of None \<Rightarrow> None | Some ch \<Rightarrow> lookup ch ss)"

definition existsSync :: "node \<Rightarrow> path \<Rightarrow> bool" where
  "existsSync fs p = (lookup fs p \<noteq> None)"

definition readFileSync :: "node \<Rightarrow> path \<Rightarrow> js_error + string" where
  "readFileSync fs p =
     (case lookup fs p of
        None \<Rightarrow> Inl ENOENT
      | Some (Dir es) \<Rightarrow> Inl EISDIR
      | Some (File c) \<Rightarrow> Inr c)"

definition readdirSync :: "node \<Rightarrow> path \<Rightarrow> js_error + (string \<times> node) list" where
  "readdirSync fs p =
     (case lookup fs p of
        None \<Rightarrow> Inl ENOENT
      | Some (File c) \<Rightarrow> Inl ENOTDIR
      | Some (Dir es) \<Rightarrow> Inr es)"

text \<open>\<^verbatim>\<open>fs.writeFileSync(p, content)\<close>: creates or overwrites a file in an existing directory.\<close>

fun writeFileSync :: "node \<Rightarrow> path \<Rightarrow> string \<Rightarrow> js_error + node" where
  "writeFileSync (File c) [] content = Inr (File content)"
| "writeFileSync (Dir es) [] content = Inl EISDIR"
| "writeFileSync (File c) (s # ss) content = Inl ENOTDIR"
| "writeFileSync (Dir es) (s # ss) content =
     (case map_of es s of
        None \<Rightarrow> if ss = [] then Inr (Dir (es @ [(s, File content)])) else Inl ENOENT
      | Some ch \<Rightarrow>
          (case writeFileSync ch ss content of
             Inl e \<Rightarrow> Inl e
           | Inr ch' \<Rightarrow> Inr (Dir (map (\<lambda>(k, v). if k = s then (k, ch') else (k, v)) es))))"

text \<open>\<^verbatim>\<open>fs.mkdirSync(p, { recursive: true })\<close>: creates the missing directories of \<open>p\<close>.\<close>

fun mkdirSync :: "node \<Rightarrow> path \<Rightarrow> js_error + node" where
  "mkdirSync (Dir es) [] = Inr (Dir es)"
| "mkdirSync (File c) [] = Inl EEXIST"
| "mkdirSync (File c) (s # ss) = Inl ENOTDIR"
| "mkdirSync (Dir es) (s # ss) =
     (case map_of es s of
        None \<Rightarrow>
          (case mkdirSync (Dir []) ss of
             Inl e \<Rightarrow> Inl e
           | Inr d \<Rightarrow> Inr (Dir (es @ [(s, d)])))
      | Some ch \<Rightarrow>
          (case mkdirSync ch ss of
             Inl e \<Rightarrow> Inl e
           | Inr ch' \<Rightarrow> Inr (Dir (map (\<lambda>(k, v). if k = s then (k, ch') else (k, v)) es))))"

section \<open>The action executor\<close>

text \<open>
  \<^verbatim>\<open>createToolExecutor(projectDir)\<close> of \<^verbatim>\<open>src/agent/tools.ts\<close>. The argument object of
  a tool call has the fields that \<^verbatim>\<open>TOOL_DECLARATIONS\<close> declares, each of them
  optional (\<open>None\<close> is \<^verbatim>\<open>undefined\<close>) and of its declared type; a number is an
  integer. A \<^verbatim>\<open>ToolResult\<close> has the two optional fields of \<^verbatim>\<open>src/types.ts\<close>
  (\<open>toolOutput\<close> is its field \<^verbatim>\<open>output\<close>).
\<close>

record tool_args =
  path :: "string option"
  content :: "string option"
  lines :: "int option"
  recursive :: "bool option"
  command :: "string option"
  old_string :: "string option"
  new_string :: "string option"

record ToolResult =
  toolOutput :: "string option"
  error :: "string option"

definition Output :: "string \<Rightarrow> ToolResult" where
  "Output s = \<lparr>toolOutput = Some s, error = None\<rparr>"

definition Failure :: "string \<Rightarrow> ToolResult" where
  "Failure s = \<lparr>toolOutput = None, error = Some s\<rparr>"

text \<open>\<^verbatim>\<open>String(x)\<close> and \<^verbatim>\<open>${x}\<close> on an optional string.\<close>

definition toStr :: "string option \<Rightarrow> string" where
  "toStr x = (case x of None \<Rightarrow> ''undefined'' | Some s \<Rightarrow> s)"

text \<open>\<^verbatim>\<open>Number(args.lines) || 100\<close>: \<^verbatim>\<open>undefined\<close> gives \<^verbatim>\<open>NaN\<close>, and \<^verbatim>\<open>NaN\<close> and \<open>0\<close> are falsy.\<close>

definition linesOrDefault :: "int option \<Rightarrow> int" where
  "linesOrDefault x = (case x of None \<Rightarrow> 100 | Some n \<Rightarrow> if n = 0 then 100 else n)"

text \<open>
  \<^verbatim>\<open>execSync\<close> runs an external shell, which the model takes as a parameter: given
  the command, the working directory and the file system it returns the captured
  standard output, or throws an error object with optional \<^verbatim>\<open>stdout\<close>, \<^verbatim>\<open>stderr\<close> and
  \<^verbatim>\<open>message\<close>, and leaves a file system behind. The timeout of the command is part of
  what the shell does.
\<close>

record exec_error =
  stdout :: "string option"
  stderr :: "string option"
  message :: "string option"

datatype exec_outcome = ExecReturns string | ExecThrows exec_error

type_synonym shell = "string \<Rightarrow> path \<Rightarrow> node \<Rightarrow> exec_outcome \<times> node"

definition resolvePath :: "path \<Rightarrow> string \<Rightarrow> js_error + path" where
  "resolvePath projectRoot relativePath =
     (let resolved = resolve projectRoot relativePath;
          rel = relative projectRoot resolved
      in if startsWith ''..'' rel \<or> isAbsolute rel
         then Inl (Error ''Path traversal not allowed'')
         else Inr resolved)"

text \<open>
  The body of each operation is a \<^verbatim>\<open>try\<close> block: it either throws (\<open>Inl\<close>) or
  returns a result, and leaves a file system. \<open>catch\<close> is the handler
  \<^verbatim>\<open>catch (err) { return { error: String(err) } }\<close>.
\<close>

definition catch :: "(js_error + ToolResult) \<times> node \<Rightarrow> ToolResult \<times> node" where
  "catch r =
     (case fst r of
        Inl err \<Rightarrow> (Failure (errorToString err), snd r)
      | Inr res \<Rightarrow> (res, snd r))"

definition readFile :: "path \<Rightarrow> tool_args \<Rightarrow> node \<Rightarrow> ToolResult \<times> node" where
  "readFile projectRoot args fs = catch
     (case resolvePath projectRoot (toStr (path args)) of
        Inl err \<Rightarrow> (Inl err, fs)
      | Inr filePath \<Rightarrow>
          if \<not> existsSync fs filePath
          then (Inr (Failure (''File not found: '' @ toStr (path args))), fs)
          else (case readFileSync fs filePath of
                  Inl err \<Rightarrow> (Inl err, fs)
                | Inr text \<Rightarrow> (Inr (Output text), fs)))"

definition writeFile :: "path \<Rightarrow> tool_args \<Rightarrow> node \<Rightarrow> ToolResult \<times> node" where
  "writeFile projectRoot args fs = catch
     (case resolvePath projectRoot (toStr (path args)) of
        Inl err \<Rightarrow> (Inl err, fs)
      | Inr filePath \<Rightarrow>
          (let dir = dirname filePath in
           case (if \<not> existsSync fs dir then mkdirSync fs dir else Inr fs) of
             Inl err \<Rightarrow> (Inl err, fs)
           | Inr fs1 \<Rightarrow>
               (case writeFileSync fs1 filePath (toStr (content args)) of
                  Inl err \<Rightarrow> (Inl err, fs1)
                | Inr fs2 \<Rightarrow>
                    (Inr (Output (''File written: '' @ toStr (path args))), fs2))))"

definition headFile :: "path \<Rightarrow> tool_args \<Rightarrow> node \<Rightarrow> ToolResult \<times> node" where
  "headFile projectRoot args fs = catch
     (case resolvePath projectRoot (toStr (path args)) of
        Inl err \<Rightarrow> (Inl err, fs)
      | Inr filePath \<Rightarrow>
          (let n = linesOrDefault (lines args) in
           if \<not> existsSync fs filePath
           then (Inr (Failure (''File not found: '' @ toStr (path args))), fs)
           else (case readFileSync fs filePath of
                   Inl err \<Rightarrow> (Inl err, fs)
                 | Inr text \<Rightarrow>
                     (let fileLines = slice 0 (Some n) (split CHR 0x0A text)
                      in (Inr (Output (join [CHR 0x0A] fileLines)), fs)))))"

definition tailFile :: "path \<Rightarrow> tool_args \<Rightarrow> node \<Rightarrow> ToolResult \<times> node" where
  "tailFile projectRoot args fs = catch
     (case resolvePath projectRoot (toStr (path args)) of
        Inl err \<Rightarrow> (Inl err, fs)
      | Inr filePath \<Rightarrow>
          (let n = linesOrDefault (lines args) in
           if \<not> existsSync fs filePath
           then (Inr (Failure (''File not found: '' @ toStr (path args))), fs)
           else (case readFileSync fs filePath of
                   Inl err \<Rightarrow> (Inl err, fs)
                 | Inr text \<Rightarrow>
                     (let fileLines = slice (- n) None (split CHR 0x0A text)
                      in (Inr (Output (join [CHR 0x0A] fileLines)), fs)))))"

text \<open>
  \<^verbatim>\<open>listRecursive\<close>: the loop over the entries of a directory. The source reads each
  subdirectory again by its path; nothing writes in between, so the model walks the
  subtree it already holds.
\<close>

function listRecursive :: "bool \<Rightarrow> (string \<times> node) list \<Rightarrow> string \<Rightarrow> string list" where
  "listRecursive rec [] prefix' = []"
| "listRecursive rec ((name, File c) # entries) prefix' =
     (prefix' @ name) # listRecursive rec entries prefix'"
| "listRecursive rec ((name, Dir es) # entries) prefix' =
     ((prefix' @ name @ ''/'')
        # (if rec then listRecursive rec es (prefix' @ name @ ''/'') else []))
     @ listRecursive rec entries prefix'"
  by pat_completeness auto
termination
  by (relation "measure (\<lambda>(rec, entries, prefix'). size_list (size_prod (\<lambda>_. 0) size) entries)")
    auto

definition listDir :: "path \<Rightarrow> tool_args \<Rightarrow> node \<Rightarrow> ToolResult \<times> node" where
  "listDir projectRoot args fs = catch
     (case resolvePath projectRoot (toStr (path args)) of
        Inl err \<Rightarrow> (Inl err, fs)
      | Inr dirPath \<Rightarrow>
          (let rec = (recursive args = Some True) in
           if \<not> existsSync fs dirPath
           then (Inr (Failure (''Directory not found: '' @ toStr (path args))), fs)
           else (case readdirSync fs dirPath of
                   Inl err \<Rightarrow> (Inl err, fs)
                 | Inr entries \<Rightarrow>
                     (let items = join [CHR 0x0A] (listRecursive rec entries [])
                      in (Inr (Output (if items = [] then ''(empty directory)'' else items)),
                          fs)))))"

text \<open>\<^verbatim>\<open>x || ''\<close> on an optional string.\<close>

definition orEmpty :: "string option \<Rightarrow> string" where
  "orEmpty x = (case x of None \<Rightarrow> [] | Some s \<Rightarrow> s)"

definition runCommand :: "shell \<Rightarrow> path \<Rightarrow> tool_args \<Rightarrow> node \<Rightarrow> ToolResult \<times> node" where
  "runCommand sh projectRoot args fs =
     (case sh (toStr (command args)) projectRoot fs of
        (ExecReturns out, fs1) \<Rightarrow>
          (Output (if out = [] then ''(no output)'' else out), fs1)
      | (ExecThrows execErr, fs1) \<Rightarrow>
          (let out = orEmpty (stdout execErr);
               err = orEmpty (stderr execErr);
               msg = orEmpty (message execErr)
           in if out \<noteq> [] \<or> err \<noteq> []
              then (Failure (''Command failed'' @ [CHR 0x0A] @ ''stdout:'' @ [CHR 0x0A] @ out
                               @ [CHR 0x0A] @ ''stderr:'' @ [CHR 0x0A] @ err), fs1)
              else (Failure (''Command failed: '' @ msg), fs1)))"

definition editFile :: "path \<Rightarrow> tool_args \<Rightarrow> node \<Rightarrow> ToolResult \<times> node" where
  "editFile projectRoot args fs = catch
     (case resolvePath projectRoot (toStr (path args)) of
        Inl err \<Rightarrow> (Inl err, fs)
      | Inr filePath \<Rightarrow>
          (let oldString = toStr (old_string args);
               newString = toStr (new_string args)
           in if \<not> existsSync fs filePath
              then (Inr (Failure (''File not found: '' @ toStr (path args))), fs)
              else (case readFileSync fs filePath of
                      Inl err \<Rightarrow> (Inl err, fs)
                    | Inr text \<Rightarrow>
                        if \<not> includesStr text oldString
                        then (Inr (Failure (''String not found in file: '' @ [CHR 0x22]
                                              @ slice 0 (Some 50) oldString @ ''...''
                                              @ [CHR 0x22])), fs)
                        else (case writeFileSync fs filePath (replace text oldString newString) of
                                Inl err \<Rightarrow> (Inl err, fs)
                              | Inr fs1 \<Rightarrow>
                                  (Inr (Output (''File edited: '' @ toStr (path args))), fs1)))))"

definition executeTool :: "shell \<Rightarrow> path \<Rightarrow> string \<Rightarrow> tool_args \<Rightarrow> node \<Rightarrow> ToolResult \<times> node" where
  "executeTool sh projectRoot name args fs =
     (if name = ''read_file'' then readFile projectRoot args fs
      else if name = ''write_file'' then writeFile projectRoot args fs
      else if name = ''head_file'' then headFile projectRoot args fs
      else if name = ''tail_file'' then tailFile projectRoot args fs
      else if name = ''list_dir'' then listDir projectRoot args fs
      else if name = ''run_command'' then runCommand sh projectRoot args fs
      else if name = ''edit_file'' then editFile projectRoot args fs
      else (Failure (''Unknown tool: '' @ name), fs))"

section \<open>Conversations, permissions and the completion boundary\<close>

text \<open>
  The data of \<^verbatim>\<open>src/types.ts\<close> and of the Gemini SDK that the agent touches. A part
  of a turn is a text, a requested action, or the result of one (its \<^verbatim>\<open>response\<close>
  object has either the key \<^verbatim>\<open>error\<close> or the key \<^verbatim>\<open>result\<close>, the latter possibly
  \<^verbatim>\<open>undefined\<close>). A turn without a \<^verbatim>\<open>parts\<close> field is the turn with no parts.
\<close>

record FunctionCall =
  name :: "string option"
  args :: "tool_args option"

datatype response_payload = ResponseError string | ResponseResult "string option"

datatype part =
  Text string
| FunctionCallPart FunctionCall
| FunctionResponse string response_payload

record Content =
  role :: string
  parts :: "part list"

datatype PermissionMode = Ask | Allow

record Permission =
  mode :: PermissionMode
  allowed :: "string list option"

record PermissionResponse =
  granted :: bool
  alwaysAllow :: bool

definition MAX_HOPS :: nat where
  "MAX_HOPS = 25"

definition MAX_CONTEXT_CHARS :: nat where
  "MAX_CONTEXT_CHARS = 100000"

text \<open>
  A request to the completion boundary carries the model name, the turns, and for a
  conversation request a configuration (the tool declarations, which are constant,
  and one of the two system instructions, whose wording is not modelled). The
  summarisation request has no configuration.
\<close>

datatype systemInstruction = SYSTEM_INSTRUCTION | SYSTEM_INSTRUCTION_WITH_PLAN

datatype GenerateContentParams =
  GenerateContentParams string "Content list" "systemInstruction option"

fun hasConfig :: "GenerateContentParams \<Rightarrow> bool" where
  "hasConfig (GenerateContentParams m cs cfg) = (cfg \<noteq> None)"

text \<open>
  The interface \<^verbatim>\<open>GenerateContentResponse\<close> of the agent; \<open>responseText\<close> is its
  field \<^verbatim>\<open>text\<close> and \<open>modelContent\<close> stands for
  \<^verbatim>\<open>candidates?.[0]?.content\<close>. A call of the boundary returns a response or throws
  an error object, of which the agent reads \<^verbatim>\<open>status\<close>, \<^verbatim>\<open>message\<close> (here
  \<open>apiMessage\<close>) and \<^verbatim>\<open>error.code\<close> (here \<open>code\<close>).
\<close>

record GenerateContentResponse =
  responseText :: "string option"
  functionCalls :: "FunctionCall list option"
  modelContent :: "Content option"

record ApiError =
  status :: "int option"
  apiMessage :: "string option"
  code :: "int option"

datatype api_outcome = Returns GenerateContentResponse | Throws ApiError

text \<open>
  What lies outside the program is a parameter of the model: the completion boundary,
  a function of all requests sent so far (the last one is the current request); the
  permission callback, which is given the number of earlier prompts and its three
  arguments; the shell behind \<^verbatim>\<open>execSync\<close>; and \<^verbatim>\<open>JSON.stringify\<close> on a turn, on a
  requested action and on an action result.
\<close>

record env =
  llm :: "GenerateContentParams list \<Rightarrow> api_outcome"
  onPermissionPrompt :: "nat \<Rightarrow> string \<Rightarrow> tool_args \<Rightarrow> string \<Rightarrow> PermissionResponse"
  execSync :: shell
  stringifyContent :: "Content \<Rightarrow> string"
  stringifyCall :: "FunctionCall \<Rightarrow> string"
  stringifyResponse :: "string \<Rightarrow> response_payload \<Rightarrow> string"

text \<open>
  The state of a running agent. Message arrays live in a store, because the session
  and the loop may hold the same array: \<open>sessionMessages\<close> is the array of the
  current session (\<open>None\<close> without a session). The settings are the ones in memory;
  writing \<^verbatim>\<open>settings.json\<close> and \<^verbatim>\<open>history.json\<close> after each change is not modelled, and
  neither is the timeout around a boundary call. The logs record the requests sent,
  the delays slept, and the invocations of the three callbacks.
\<close>

type_synonym addr = nat

record agent_state =
  files :: node
  settingsModel :: string
  permissions :: "string \<rightharpoonup> Permission"
  planMode :: bool
  arrays :: "addr \<Rightarrow> Content list"
  nextAddr :: addr
  sessionMessages :: "addr option"
  requests :: "GenerateContentParams list"
  sleeps :: "nat list"
  promptLog :: "(string \<times> tool_args \<times> string) list"
  toolLog :: "(string \<times> tool_args \<times> ToolResult) list"
  contextLog :: "(nat \<times> nat \<times> nat \<times> nat) list"

definition alloc :: "Content list \<Rightarrow> agent_state \<Rightarrow> addr \<times> agent_state" where
  "alloc xs s =
     (nextAddr s, s\<lparr>arrays := (arrays s)(nextAddr s := xs), nextAddr := Suc (nextAddr s)\<rparr>)"

definition push :: "addr \<Rightarrow> Content \<Rightarrow> agent_state \<Rightarrow> agent_state" where
  "push a msg s = s\<lparr>arrays := (arrays s)(a := arrays s a @ [msg])\<rparr>"

subsection \<open>The stores\<close>

text \<open>\<^verbatim>\<open>SettingsManager\<close> of \<^verbatim>\<open>src/storage/settings.ts\<close>.\<close>

definition getPermission :: "agent_state \<Rightarrow> string \<Rightarrow> Permission option" where
  "getPermission s tool = permissions s tool"

definition setPermission :: "string \<Rightarrow> Permission \<Rightarrow> agent_state \<Rightarrow> agent_state" where
  "setPermission tool perm s = s\<lparr>permissions := (permissions s)(tool \<mapsto> perm)\<rparr>"

definition isAllowed :: "agent_state \<Rightarrow> string \<Rightarrow> bool" where
  "isAllowed s tool =
     (case getPermission s tool of None \<Rightarrow> False | Some perm \<Rightarrow> mode perm = Allow)"

text \<open>\<^verbatim>\<open>HistoryManager\<close> of \<^verbatim>\<open>src/storage/history.ts\<close>.\<close>

definition addMessage :: "Content \<Rightarrow> agent_state \<Rightarrow> agent_state" where
  "addMessage msg s = (case sessionMessages s of None \<Rightarrow> s | Some a \<Rightarrow> push a msg s)"

definition setCurrentSessionMessages :: "addr \<Rightarrow> agent_state \<Rightarrow> agent_state" where
  "setCurrentSessionMessages a s =
     (case sessionMessages s of None \<Rightarrow> s | Some old \<Rightarrow> s\<lparr>sessionMessages := Some a\<rparr>)"

text \<open>\<^verbatim>\<open>getMessages\<close>: the array of the session, or a new empty array.\<close>

definition getMessages :: "agent_state \<Rightarrow> addr \<times> agent_state" where
  "getMessages s = (case sessionMessages s of None \<Rightarrow> alloc [] s | Some a \<Rightarrow> (a, s))"

subsection \<open>The action catalog\<close>

definition TOOL_PERMISSIONS :: "string \<rightharpoonup> string" where
  "TOOL_PERMISSIONS = map_of
     [(''read_file'', ''read_file''),
      (''write_file'', ''write_file''),
      (''head_file'', ''read_file''),
      (''tail_file'', ''read_file''),
      (''list_dir'', ''list_dir''),
      (''run_command'', ''run_command''),
      (''edit_file'', ''write_file'')]"

text \<open>\<^verbatim>\<open>${args.lines || 100}\<close>\<close>

definition linesText :: "int option \<Rightarrow> string" where
  "linesText x = (case x of None \<Rightarrow> ''100'' | Some n \<Rightarrow> if n = 0 then ''100'' else numberToString n)"

definition getToolDescription :: "string \<Rightarrow> tool_args \<Rightarrow> string" where
  "getToolDescription toolName a =
     (if toolName = ''read_file'' then ''Read file: '' @ toStr (path a)
      else if toolName = ''write_file'' then ''Write file: '' @ toStr (path a)
      else if toolName = ''head_file''
        then ''Read first '' @ linesText (lines a) @ '' lines of: '' @ toStr (path a)
      else if toolName = ''tail_file''
        then ''Read last '' @ linesText (lines a) @ '' lines of: '' @ toStr (path a)
      else if toolName = ''list_dir''
        then ''List directory: '' @ toStr (path a)
               @ (if recursive a = Some True then '' (recursive)'' else [])
      else if toolName = ''run_command'' then ''Run command: '' @ toStr (command a)
      else if toolName = ''edit_file'' then ''Edit file: '' @ toStr (path a)
      else ''Unknown tool: '' @ toolName)"

text \<open>The empty argument object \<^verbatim>\<open>{}\<close>.\<close>

definition emptyArgs :: tool_args where
  "emptyArgs = \<lparr>path = None, content = None, lines = None, recursive = None,
     command = None, old_string = None, new_string = None\<rparr>"

section \<open>The agent\<close>

subsection \<open>Calling the completion boundary\<close>

text \<open>One call of \<^verbatim>\<open>ai.models.generateContent\<close>.\<close>

definition generateContent ::
  "env \<Rightarrow> GenerateContentParams \<Rightarrow> agent_state \<Rightarrow> api_outcome \<times> agent_state" where
  "generateContent e params s =
     (llm e (requests s @ [params]), s\<lparr>requests := requests s @ [params]\<rparr>)"

definition isRateLimit :: "ApiError \<Rightarrow> bool" where
  "isRateLimit err =
     (let errorMessage = orEmpty (apiMessage err)
      in status err = Some 429
         \<or> includesStr errorMessage ''429''
         \<or> code err = Some 429
         \<or> includesStr errorMessage ''RESOURCE_EXHAUSTED'')"

definition sleep :: "nat \<Rightarrow> agent_state \<Rightarrow> agent_state" where
  "sleep ms s = s\<lparr>sleeps := sleeps s @ [ms]\<rparr>"

text \<open>
  \<^verbatim>\<open>generateContentWithRetry\<close>: the \<^verbatim>\<open>for\<close> loop over \<open>attempt\<close>, and the last call
  after it, whose error is not caught.
\<close>

function generateContentWithRetry ::
  "env \<Rightarrow> GenerateContentParams \<Rightarrow> nat \<Rightarrow> nat \<Rightarrow> agent_state
     \<Rightarrow> (ApiError + GenerateContentResponse) \<times> agent_state" where
  "generateContentWithRetry e params maxRetries attempt s =
     (if attempt < maxRetries then
        (case generateContent e params s of
           (Returns response, s1) \<Rightarrow> (Inr response, s1)
         | (Throws err, s1) \<Rightarrow>
             if isRateLimit err
             then generateContentWithRetry e params maxRetries (attempt + 1) (sleep 60000 s1)
             else (Inl err, s1))
      else
        (case generateContent e params s of
           (Returns response, s1) \<Rightarrow> (Inr response, s1)
         | (Throws err, s1) \<Rightarrow> (Inl err, s1)))"
  by pat_completeness auto
termination
  by (relation "measure (\<lambda>(e, params, maxRetries, attempt, s). maxRetries - attempt)") auto

declare generateContentWithRetry.simps [simp del]

subsection \<open>Context size and compaction\<close>

fun partSize :: "env \<Rightarrow> part \<Rightarrow> nat" where
  "partSize e (Text t) = length t"
| "partSize e (FunctionCallPart fc) = length (stringifyCall e fc)"
| "partSize e (FunctionResponse n r) = length (stringifyResponse e n r)"

definition calculateContentSize :: "env \<Rightarrow> Content list \<Rightarrow> nat" where
  "calculateContentSize e cs = sum_list (map (\<lambda>msg. sum_list (map (partSize e) (parts msg))) cs)"

definition logContextSize :: "env \<Rightarrow> Content list \<Rightarrow> nat \<Rightarrow> agent_state \<Rightarrow> agent_state" where
  "logContextSize e cs hop s =
     (let totalChars = calculateContentSize e cs;
          estimatedTokens = (totalChars + 3) div 4
      in s\<lparr>contextLog := contextLog s @ [(hop, length cs, totalChars, estimatedTokens)]\<rparr>)"

fun isAction :: "part \<Rightarrow> bool" where
  "isAction (Text t) = False"
| "isAction (FunctionCallPart fc) = True"
| "isAction (FunctionResponse n r) = True"

definition hasToolCall :: "Content \<Rightarrow> bool" where
  "hasToolCall msg = list_ex isAction (parts msg)"

text \<open>
  The first loop of \<^verbatim>\<open>summarizeToolCalls\<close>, from index \<open>i\<close> on: the tool turns, the
  other turns, and the indices of the tool turns.
\<close>

fun partitionTurns :: "nat \<Rightarrow> Content list \<Rightarrow> Content list \<times> Content list \<times> nat list" where
  "partitionTurns i [] = ([], [], [])"
| "partitionTurns i (msg # rest) =
     (case partitionTurns (i + 1) rest of
        (toolCallMessages, otherMessages, toolCallIndices) \<Rightarrow>
          if hasToolCall msg
          then (msg # toolCallMessages, otherMessages, i # toolCallIndices)
          else (toolCallMessages, msg # otherMessages, toolCallIndices))"

text \<open>
  The second loop, from index \<open>i\<close> on: what it pushes to \<open>result\<close>, and
  \<open>summaryAdded\<close> at its end.
\<close>

fun spliceSummary ::
  "nat list \<Rightarrow> Content \<Rightarrow> nat \<Rightarrow> Content list \<Rightarrow> bool \<Rightarrow> Content list \<times> bool" where
  "spliceSummary toolCallIndices summaryContent i [] summaryAdded = ([], summaryAdded)"
| "spliceSummary toolCallIndices summaryContent i (msg # rest) summaryAdded =
     (if i \<notin> set toolCallIndices then
        (if \<not> summaryAdded \<and> length toolCallIndices > 0 \<and> i > last toolCallIndices
         then (case spliceSummary toolCallIndices summaryContent (i + 1) rest True of
                 (result, added) \<Rightarrow> (summaryContent # msg # result, added))
         else (case spliceSummary toolCallIndices summaryContent (i + 1) rest summaryAdded of
                 (result, added) \<Rightarrow> (msg # result, added)))
      else spliceSummary toolCallIndices summaryContent (i + 1) rest summaryAdded)"

definition SUMMARIZE_PROMPT :: string where
  "SUMMARIZE_PROMPT =
     ''Summarize the following tool calls and their results into a concise summary. ''
     @ [CHR 0x0A]
     @ ''Keep key information like file names, important code changes, and outcomes. ''
     @ [CHR 0x0A]
     @ ''Format as a brief bullet list. Do not include full file contents.''"

definition summaryTurn :: "string \<Rightarrow> Content" where
  "summaryTurn summary =
     \<lparr>role = ''user'', parts = [Text (''[Previous tool calls summary: '' @ summary @ '']'')]\<rparr>"

text \<open>
  The request that \<^verbatim>\<open>summarizeToolCalls\<close> sends for the tool turns, and the summary it
  takes from the response (\<^verbatim>\<open>summaryResponse.text ?? 'Tool calls were performed.'\<close>).
\<close>

definition summaryParams :: "env \<Rightarrow> agent_state \<Rightarrow> Content list \<Rightarrow> GenerateContentParams" where
  "summaryParams e s toolCallMessages =
     (let summaryText = join [CHR 0x0A, CHR 0x0A] (map (stringifyContent e) toolCallMessages)
      in GenerateContentParams (settingsModel s)
           [\<lparr>role = ''user'',
             parts = [Text (SUMMARIZE_PROMPT @ [CHR 0x0A, CHR 0x0A] @ summaryText)]\<rparr>]
           None)"

definition summaryOf :: "GenerateContentResponse \<Rightarrow> string" where
  "summaryOf summaryResponse =
     (case responseText summaryResponse of
        None \<Rightarrow> ''Tool calls were performed.''
      | Some t \<Rightarrow> t)"

text \<open>
  \<^verbatim>\<open>summarizeToolCalls\<close> on the array \<open>cur\<close>: it returns that same array when there
  are fewer than four tool turns, and a new array otherwise; the boundary call may
  throw.
\<close>

definition summarizeToolCalls ::
  "env \<Rightarrow> addr \<Rightarrow> agent_state \<Rightarrow> (ApiError + addr) \<times> agent_state" where
  "summarizeToolCalls e cur s =
     (case partitionTurns 0 (arrays s cur) of
        (toolCallMessages, otherMessages, toolCallIndices) \<Rightarrow>
          if length toolCallMessages < 4 then (Inr cur, s)
          else
            (case generateContentWithRetry e (summaryParams e s toolCallMessages) 3 0 s of
               (Inl err, s1) \<Rightarrow> (Inl err, s1)
             | (Inr summaryResponse, s1) \<Rightarrow>
                 (let summaryContent = summaryTurn (summaryOf summaryResponse)
                  in case spliceSummary toolCallIndices summaryContent 0 (arrays s cur) False of
                       (result, summaryAdded) \<Rightarrow>
                         (case alloc (if \<not> summaryAdded then result @ [summaryContent]
                                      else result) s1 of
                            (a, s2) \<Rightarrow> (Inr a, s2)))))"

subsection \<open>Dispatching a requested action\<close>

definition denialMessage :: "string \<Rightarrow> Content" where
  "denialMessage toolName =
     \<lparr>role = ''user'',
      parts = [FunctionResponse toolName (ResponseError ''Permission denied by user'')]\<rparr>"

text \<open>\<^verbatim>\<open>result.error ? { error: result.error } : { result: result.output }\<close>\<close>

definition toolResponse :: "string \<Rightarrow> ToolResult \<Rightarrow> Content" where
  "toolResponse toolName result =
     \<lparr>role = ''user'',
      parts = [FunctionResponse toolName
                 (case error result of
                    None \<Rightarrow> ResponseResult (toolOutput result)
                  | Some err \<Rightarrow> if err \<noteq> [] then ResponseError err
                                else ResponseResult (toolOutput result))]\<rparr>"

definition toolNameOf :: "FunctionCall \<Rightarrow> string" where
  "toolNameOf fc = (case name fc of None \<Rightarrow> ''unknown'' | Some n \<Rightarrow> n)"

definition permissionKeyOf :: "FunctionCall \<Rightarrow> string" where
  "permissionKeyOf fc =
     (case TOOL_PERMISSIONS (toolNameOf fc) of None \<Rightarrow> toolNameOf fc | Some k \<Rightarrow> k)"

definition argsOf :: "FunctionCall \<Rightarrow> tool_args" where
  "argsOf fc = (case args fc of None \<Rightarrow> emptyArgs | Some a \<Rightarrow> a)"

text \<open>
  The body of the loop over \<open>funcCalls\<close> in \<^verbatim>\<open>agenticLoop\<close>, for one requested
  action; \<open>cur\<close> is the array \<open>currentContents\<close>.
\<close>

definition dispatch :: "env \<Rightarrow> path \<Rightarrow> addr \<Rightarrow> FunctionCall \<Rightarrow> agent_state \<Rightarrow> agent_state" where
  "dispatch e projectRoot cur fc s =
     (let callArgs = argsOf fc;
          toolName = toolNameOf fc;
          permissionKey = permissionKeyOf fc;
          description = getToolDescription toolName callArgs;
          hasPermission = isAllowed s permissionKey;
          (isGranted, s1) =
            (if \<not> hasPermission then
               (let permResponse =
                      onPermissionPrompt e (length (promptLog s)) permissionKey callArgs description;
                    s0 = s\<lparr>promptLog := promptLog s @ [(permissionKey, callArgs, description)]\<rparr>
                in (granted permResponse,
                    if granted permResponse \<and> alwaysAllow permResponse
                    then setPermission permissionKey \<lparr>mode = Allow, allowed = None\<rparr> s0
                    else s0))
             else (hasPermission, s))
      in if \<not> isGranted then push cur (denialMessage toolName) (addMessage (denialMessage toolName) s1)
         else
           (case executeTool (execSync e) projectRoot toolName callArgs (files s1) of
              (result, fs1) \<Rightarrow>
                (let s2 = s1\<lparr>files := fs1, toolLog := toolLog s1 @ [(toolName, callArgs, result)]\<rparr>
                 in push cur (toolResponse toolName result)
                      (addMessage (toolResponse toolName result) s2))))"

subsection \<open>The loop\<close>

text \<open>
  The body of the \<^verbatim>\<open>while\<close> loop of \<^verbatim>\<open>agenticLoop\<close>, after \<open>hops++\<close>, in its three
  steps. First the context is logged and, when it is over the limit, compacted;
  \<open>checkContext\<close> returns the array that is now \<open>currentContents\<close>.
\<close>

definition checkContext ::
  "env \<Rightarrow> nat \<Rightarrow> addr \<Rightarrow> agent_state \<Rightarrow> (ApiError + addr) \<times> agent_state" where
  "checkContext e hops cur s =
     (let s1 = logContextSize e (arrays s cur) hops s;
          contextSize = calculateContentSize e (arrays s1 cur)
      in if contextSize > MAX_CONTEXT_CHARS
         then (case summarizeToolCalls e cur s1 of
                 (Inl err, s2) \<Rightarrow> (Inl err, s2)
               | (Inr cur1, s2) \<Rightarrow> (Inr cur1, setCurrentSessionMessages cur1 s2))
         else (Inr cur, s1))"

text \<open>The request of the conversation call.\<close>

definition conversationParams :: "agent_state \<Rightarrow> addr \<Rightarrow> GenerateContentParams" where
  "conversationParams s cur =
     (let instruction = (if planMode s then SYSTEM_INSTRUCTION_WITH_PLAN else SYSTEM_INSTRUCTION)
      in GenerateContentParams (settingsModel s) (arrays s cur) (Some instruction))"

text \<open>The loop over \<open>funcCalls\<close>.\<close>

definition dispatchAll ::
  "env \<Rightarrow> path \<Rightarrow> addr \<Rightarrow> FunctionCall list \<Rightarrow> agent_state \<Rightarrow> agent_state" where
  "dispatchAll e projectRoot cur funcCalls s =
     foldl (\<lambda>st fc. dispatch e projectRoot cur fc st) s funcCalls"

text \<open>\<^verbatim>\<open>response.text ?? 'No response from agent.'\<close>\<close>

definition finalAnswer :: "GenerateContentResponse \<Rightarrow> string" where
  "finalAnswer response =
     (case responseText response of None \<Rightarrow> ''No response from agent.'' | Some t \<Rightarrow> t)"

text \<open>
  One iteration: it throws, returns the final answer, or goes on with the array that
  is now \<open>currentContents\<close>.
\<close>

datatype hop_result = Thrown ApiError | Return string | Continue addr

definition hop :: "env \<Rightarrow> path \<Rightarrow> nat \<Rightarrow> addr \<Rightarrow> agent_state \<Rightarrow> hop_result \<times> agent_state" where
  "hop e projectRoot hops cur s =
     (case checkContext e hops cur s of
        (Inl err, s2) \<Rightarrow> (Thrown err, s2)
      | (Inr cur1, s2) \<Rightarrow>
          (case generateContentWithRetry e (conversationParams s2 cur1) 3 0 s2 of
             (Inl err, s3) \<Rightarrow> (Thrown err, s3)
           | (Inr response, s3) \<Rightarrow>
               (case functionCalls response of
                  None \<Rightarrow> (Return (finalAnswer response), s3)
                | Some funcCalls \<Rightarrow>
                    if funcCalls = [] then (Return (finalAnswer response), s3)
                    else
                      (let s4 = (case modelContent response of
                                   None \<Rightarrow> s3
                                 | Some mc \<Rightarrow> push cur1 mc (addMessage mc s3))
                       in (Continue cur1, dispatchAll e projectRoot cur1 funcCalls s4)))))"

function whileHops ::
  "env \<Rightarrow> path \<Rightarrow> nat \<Rightarrow> addr \<Rightarrow> agent_state \<Rightarrow> (ApiError + string) \<times> agent_state" where
  "whileHops e projectRoot hops cur s =
     (if hops < MAX_HOPS then
        (case hop e projectRoot (hops + 1) cur s of
           (Thrown err, s1) \<Rightarrow> (Inl err, s1)
         | (Return answer, s1) \<Rightarrow> (Inr answer, s1)
         | (Continue cur1, s1) \<Rightarrow> whileHops e projectRoot (hops + 1) cur1 s1)
      else (Inr ''Maximum iterations reached. Please try a more specific request.'', s))"
  by pat_completeness auto
termination
  by (relation "measure (\<lambda>(e, projectRoot, hops, cur, s). MAX_HOPS - hops)") auto

declare whileHops.simps [simp del]

text \<open>\<^verbatim>\<open>agenticLoop(contents)\<close>: \<open>currentContents\<close> starts as a copy of the array.\<close>

definition agenticLoop ::
  "env \<Rightarrow> path \<Rightarrow> addr \<Rightarrow> agent_state \<Rightarrow> (ApiError + string) \<times> agent_state" where
  "agenticLoop e projectRoot initial s =
     (case alloc (arrays s initial) s of (cur, s1) \<Rightarrow> whileHops e projectRoot 0 cur s1)"

definition processMessage ::
  "env \<Rightarrow> path \<Rightarrow> string \<Rightarrow> agent_state \<Rightarrow> (ApiError + string) \<times> agent_state" where
  "processMessage e projectRoot userMessage s =
     (case getMessages (addMessage \<lparr>role = ''user'', parts = [Text userMessage]\<rparr> s) of
        (initial, s1) \<Rightarrow>
          (case agenticLoop e projectRoot initial s1 of
             (Inl err, s2) \<Rightarrow> (Inl err, s2)
           | (Inr answer, s2) \<Rightarrow>
               (Inr answer, addMessage \<lparr>role = ''model'', parts = [Text answer]\<rparr> s2)))"

section \<open>Concrete inputs\<close>

text \<open>
  A project at \<^verbatim>\<open>/proj\<close>, a shell that prints nothing and changes nothing, and the
  argument objects used to run the executor on concrete requests.
\<close>

definition idleShell :: shell where
  "idleShell cmd cwd fs = (ExecReturns [], fs)"

definition passwdArgs :: tool_args where
  "passwdArgs = emptyArgs\<lparr>path := Some ''../../etc/passwd'', content := Some ''x''\<rparr>"

definition linesArgs :: "int option \<Rightarrow> tool_args" where
  "linesArgs n = emptyArgs\<lparr>path := Some ''a.txt'', lines := n\<rparr>"

definition threeLines :: string where
  "threeLines = ''x'' @ [CHR 0x0A] @ ''y'' @ [CHR 0x0A] @ ''z''"

definition projWith :: "string \<Rightarrow> node" where
  "projWith txt = Dir [(''proj'', Dir [(''a.txt'', File txt)])]"

definition emptyProj :: node where
  "emptyProj = Dir [(''proj'', Dir [])]"

definition fooArgs :: "string \<Rightarrow> tool_args" where
  "fooArgs new = emptyArgs\<lparr>path := Some ''a.txt'', old_string := Some ''foo'',
     new_string := Some new\<rparr>"

definition dotArgs :: tool_args where
  "dotArgs = emptyArgs\<lparr>path := Some ''.''\<rparr>"

definition trueArgs :: tool_args where
  "trueArgs = emptyArgs\<lparr>command := Some ''true''\<rparr>"

text \<open>
  A completion boundary that gives the same outcome to every request, a permission
  callback that gives the same answer to every prompt, serialisations of length 0,
  and an agent state whose session holds the given turns in the array at address 0.
\<close>

definition alwaysReturns :: "GenerateContentResponse \<Rightarrow> GenerateContentParams list \<Rightarrow> api_outcome" where
  "alwaysReturns r reqs = Returns r"

definition alwaysThrows :: "ApiError \<Rightarrow> GenerateContentParams list \<Rightarrow> api_outcome" where
  "alwaysThrows err reqs = Throws err"

definition answerWith ::
  "PermissionResponse \<Rightarrow> nat \<Rightarrow> string \<Rightarrow> tool_args \<Rightarrow> string \<Rightarrow> PermissionResponse" where
  "answerWith r i k a d = r"

definition noText :: "'a \<Rightarrow> string" where
  "noText x = []"

definition noText2 :: "'a \<Rightarrow> 'b \<Rightarrow> string" where
  "noText2 x y = []"

definition envWith ::
  "(GenerateContentParams list \<Rightarrow> api_outcome) \<Rightarrow> PermissionResponse \<Rightarrow> env" where
  "envWith f r =
     \<lparr>llm = f, onPermissionPrompt = answerWith r, execSync = idleShell,
      stringifyContent = noText, stringifyCall = noText, stringifyResponse = noText2\<rparr>"

definition arrayAt0 :: "Content list \<Rightarrow> addr \<Rightarrow> Content list" where
  "arrayAt0 cs a = (if a = 0 then cs else [])"

definition stateWith :: "Content list \<Rightarrow> (string \<rightharpoonup> Permission) \<Rightarrow> agent_state" where
  "stateWith cs perms =
     \<lparr>files = projWith ''foobaz'', settingsModel = ''gemini-3-flash-preview'',
      permissions = perms, planMode = False, arrays = arrayAt0 cs, nextAddr = 1,
      sessionMessages = Some 0, requests = [], sleeps = [], promptLog = [], toolLog = [],
      contextLog = []\<rparr>"

definition noPermissions :: "string \<rightharpoonup> Permission" where
  "noPermissions = Map.empty"

definition readAllowed :: "string \<rightharpoonup> Permission" where
  "readAllowed = [''read_file'' \<mapsto> \<lparr>mode = Allow, allowed = None\<rparr>]"

definition deny :: PermissionResponse where
  "deny = \<lparr>granted = False, alwaysAllow = False\<rparr>"

definition rateLimited :: ApiError where
  "rateLimited = \<lparr>status = Some 429, apiMessage = None, code = None\<rparr>"

definition serverError :: ApiError where
  "serverError = \<lparr>status = Some 500, apiMessage = Some ''Internal error'', code = None\<rparr>"

definition readCall :: FunctionCall where
  "readCall = \<lparr>name = Some ''read_file'', args = Some (linesArgs None)\<rparr>"

definition writeCall :: FunctionCall where
  "writeCall = \<lparr>name = Some ''write_file'',
     args = Some (emptyArgs\<lparr>path := Some ''a.txt'', content := Some ''new''\<rparr>)\<rparr>"

definition userTurn :: "string \<Rightarrow> Content" where
  "userTurn t = \<lparr>role = ''user'', parts = [Text t]\<rparr>"

definition callTurn :: Content where
  "callTurn = \<lparr>role = ''model'', parts = [Text ''I will read the file'', FunctionCallPart readCall]\<rparr>"

definition resultTurn :: Content where
  "resultTurn = toolResponse ''read_file'' (Output ''foobaz'')"

definition conversation :: "Content list" where
  "conversation =
     [userTurn ''hi'', callTurn, resultTurn, userTurn ''more'', callTurn, resultTurn,
      userTurn ''bye'']"

definition summaryResponse :: GenerateContentResponse where
  "summaryResponse = \<lparr>responseText = Some ''read a.txt twice'', functionCalls = None,
     modelContent = None\<rparr>"

definition readRequest :: GenerateContentResponse where
  "readRequest = \<lparr>responseText = None, functionCalls = Some [readCall], modelContent = None\<rparr>"

definition aRequest :: GenerateContentParams where
  "aRequest = GenerateContentParams ''gemini-3-flash-preview'' [userTurn ''hi''] None"

definition bigConversation :: "Content list" where
  "bigConversation = userTurn (replicate 100001 CHR ''a'') # conversation"

section \<open>Properties of the action executor\<close>

subsection \<open>Path confinement\<close>

lemma relativeSegments_outside:
  "\<not> prefix f t \<Longrightarrow> \<exists>r. relativeSegments f t = ''..'' # r"
  by (induction f t rule: relativeSegments.induct) auto

lemma startsWith_join_dotdot: "startsWith ''..'' (join ''/'' (''..'' # r))"
  by (cases r) auto

lemma resolvePath_escape:
  "\<not> prefix projectRoot (resolve projectRoot p) \<Longrightarrow>
     resolvePath projectRoot p = Inl (Error ''Path traversal not allowed'')"
  using relativeSegments_outside[of projectRoot "resolve projectRoot p"] startsWith_join_dotdot
  by (auto simp: resolvePath_def relative_def Let_def)

lemma readFile_throw:
  "resolvePath projectRoot (toStr (path a)) = Inl e \<Longrightarrow>
     readFile projectRoot a fs = (Failure (errorToString e), fs)"
  by (simp add: readFile_def catch_def)

lemma writeFile_throw:
  "resolvePath projectRoot (toStr (path a)) = Inl e \<Longrightarrow>
     writeFile projectRoot a fs = (Failure (errorToString e), fs)"
  by (simp add: writeFile_def catch_def)

lemma headFile_throw:
  "resolvePath projectRoot (toStr (path a)) = Inl e \<Longrightarrow>
     headFile projectRoot a fs = (Failure (errorToString e), fs)"
  by (simp add: headFile_def catch_def)

lemma tailFile_throw:
  "resolvePath projectRoot (toStr (path a)) = Inl e \<Longrightarrow>
     tailFile projectRoot a fs = (Failure (errorToString e), fs)"
  by (simp add: tailFile_def catch_def)

lemma listDir_throw:
  "resolvePath projectRoot (toStr (path a)) = Inl e \<Longrightarrow>
     listDir projectRoot a fs = (Failure (errorToString e), fs)"
  by (simp add: listDir_def catch_def)

lemma editFile_throw:
  "resolvePath projectRoot (toStr (path a)) = Inl e \<Longrightarrow>
     editFile projectRoot a fs = (Failure (errorToString e), fs)"
  by (simp add: editFile_def catch_def)

text \<open>
  Claim C1. A path argument whose resolution against the project root is not the root
  or below it (the root's segments are not a prefix of the resolved path's) makes each
  of the six path-taking operations return the error result of the traversal check,
  with the file system as it was: nothing is thrown and nothing is written.
\<close>

theorem path_escape_rejected:
  assumes outside: "\<not> prefix projectRoot (resolve projectRoot (toStr (path a)))"
    and op: "tool \<in> {''read_file'', ''write_file'', ''head_file'', ''tail_file'',
                     ''list_dir'', ''edit_file''}"
  shows "executeTool sh projectRoot tool a fs =
           (Failure ''Error: Path traversal not allowed'', fs)"
proof -
  have thrown: "resolvePath projectRoot (toStr (path a)) =
                  Inl (Error ''Path traversal not allowed'')"
    using outside by (rule resolvePath_escape)
  from op have "tool = ''read_file'' \<or> tool = ''write_file'' \<or> tool = ''head_file''
    \<or> tool = ''tail_file'' \<or> tool = ''list_dir'' \<or> tool = ''edit_file''"
    by (simp only: insert_iff empty_iff simp_thms)
  then consider "tool = ''read_file''" | "tool = ''write_file''" | "tool = ''head_file''"
    | "tool = ''tail_file''" | "tool = ''list_dir''" | "tool = ''edit_file''"
    by (elim disjE)
  then show ?thesis
  proof cases
    case 1
    then show ?thesis by (simp add: executeTool_def readFile_throw[OF thrown])
  next
    case 2
    then show ?thesis by (simp add: executeTool_def writeFile_throw[OF thrown])
  next
    case 3
    then show ?thesis by (simp add: executeTool_def headFile_throw[OF thrown])
  next
    case 4
    then show ?thesis by (simp add: executeTool_def tailFile_throw[OF thrown])
  next
    case 5
    then show ?thesis by (simp add: executeTool_def listDir_throw[OF thrown])
  next
    case 6
    then show ?thesis by (simp add: executeTool_def editFile_throw[OF thrown])
  qed
qed

theorem path_escape_rejected_witness:
  "\<not> prefix [''home'', ''proj''] (resolve [''home'', ''proj''] (toStr (path passwdArgs)))
   \<and> ''write_file'' \<in> {''read_file'', ''write_file'', ''head_file'', ''tail_file'',
                     ''list_dir'', ''edit_file''}
   \<and> executeTool idleShell [''home'', ''proj''] ''write_file'' passwdArgs emptyProj =
           (Failure ''Error: Path traversal not allowed'', emptyProj)"
proof -
  have h: "\<not> prefix [''home'', ''proj'']
             (resolve [''home'', ''proj''] (toStr (path passwdArgs)))"
    by (simp add: resolve_def passwdArgs_def emptyArgs_def toStr_def isAbsolute_def)
  have m: "''write_file'' \<in> {''read_file'', ''write_file'', ''head_file'', ''tail_file'',
                     ''list_dir'', ''edit_file''}"
    by simp
  show ?thesis
    using h m path_escape_rejected[OF h m, of idleShell emptyProj] by blast
qed

text \<open>An absolute path outside the root is such a path argument.\<close>

lemma absolute_path_outside:
  "\<not> prefix [''home'', ''proj''] (resolve [''home'', ''proj''] ''/etc/passwd'')"
  by (simp add: resolve_def isAbsolute_def)

subsection \<open>Lines of a file\<close>

lemma split_nonempty: "split c s \<noteq> []"
  by (induction s) auto

lemma join_Cons: "xs \<noteq> [] \<Longrightarrow> join sep (x # xs) = x @ sep @ join sep xs"
  by (cases xs) auto

lemma join_split: "join [c] (split c s) = s"
proof (induction s)
  case Nil
  then show ?case by simp
next
  case (Cons x xs)
  obtain l ls where r: "split c xs = l # ls"
    using split_nonempty[of c xs] by (cases "split c xs") auto
  show ?case
  proof (cases "x = c")
    case True
    then show ?thesis using Cons by (simp add: join_Cons split_nonempty)
  next
    case False
    then show ?thesis using Cons r by (cases ls) auto
  qed
qed

lemma slice_head: "0 \<le> n \<Longrightarrow> slice 0 (Some n) xs = take (nat n) xs"
  by (auto simp: slice_def Let_def min_def)

lemma slice_tail: "1 \<le> n \<Longrightarrow> slice (- n) None xs = drop (length xs - nat n) xs"
  by (auto simp: slice_def Let_def max_def nat_diff_distrib)

lemma readFileSync_File: "lookup fs p = Some (File txt) \<Longrightarrow> readFileSync fs p = Inr txt"
  by (simp add: readFileSync_def)

lemma existsSync_lookup: "lookup fs p = Some n \<Longrightarrow> existsSync fs p"
  by (simp add: existsSync_def)

lemma resolvePath_a_txt: "resolvePath [''proj''] ''a.txt'' = Inr [''proj'', ''a.txt'']"
  by (simp add: resolvePath_def resolve_def relative_def isAbsolute_def)

lemma lookup_projWith: "lookup (projWith txt) [''proj'', ''a.txt''] = Some (File txt)"
  by (simp add: projWith_def)

lemma split_threeLines: "split CHR 0x0A threeLines = [''x'', ''y'', ''z'']"
  by (simp add: threeLines_def)

text \<open>
  Claim C5, as the code has it. The lines of a file are the pieces between its line
  feeds, \<open>k\<close> of them. For a file that the path argument reaches and a requested
  count \<open>n \<ge> 1\<close>, \<open>head_file\<close> returns the first \<open>min n k\<close> lines and \<open>tail_file\<close>
  the last \<open>min n k\<close> lines, joined with line feeds, and both return the whole txt
  when \<open>n \<ge> k\<close>; the file system is untouched. The count is 100 when none is given,
  and a given count of 0 is read as none given.
\<close>

theorem head_tail_lines:
  assumes inside: "resolvePath projectRoot (toStr (path a)) = Inr filePath"
    and isfile: "lookup fs filePath = Some (File txt)"
    and count: "n = linesOrDefault (lines a)"
    and pos: "1 \<le> n"
    and k: "k = length (split CHR 0x0A txt)"
  shows "headFile projectRoot a fs =
           (Output (join [CHR 0x0A] (take (min (nat n) k) (split CHR 0x0A txt))), fs)
       \<and> tailFile projectRoot a fs =
           (Output (join [CHR 0x0A] (drop (k - min (nat n) k) (split CHR 0x0A txt))), fs)
       \<and> (k \<le> nat n \<longrightarrow> headFile projectRoot a fs = (Output txt, fs)
                        \<and> tailFile projectRoot a fs = (Output txt, fs))
       \<and> linesOrDefault None = 100 \<and> linesOrDefault (Some 0) = 100
       \<and> (\<forall>m. m \<noteq> 0 \<longrightarrow> linesOrDefault (Some m) = m)"
proof -
  have h: "headFile projectRoot a fs =
           (Output (join [CHR 0x0A] (take (nat n) (split CHR 0x0A txt))), fs)"
    using inside isfile count pos
    by (simp add: headFile_def catch_def readFileSync_File existsSync_lookup slice_head Let_def)
  have t: "tailFile projectRoot a fs =
           (Output (join [CHR 0x0A] (drop (k - nat n) (split CHR 0x0A txt))), fs)"
    using inside isfile count pos k
    by (simp add: tailFile_def catch_def readFileSync_File existsSync_lookup slice_tail Let_def)
  have t': "k - min (nat n) k = k - nat n"
    by simp
  have h': "take (min (nat n) k) (split CHR 0x0A txt) = take (nat n) (split CHR 0x0A txt)"
    using k by (simp add: min_def)
  have all: "k \<le> nat n \<Longrightarrow> take (nat n) (split CHR 0x0A txt) = split CHR 0x0A txt"
    using k by simp
  show ?thesis
    using h t all by (simp only: t' h') (simp add: join_split linesOrDefault_def)
qed

theorem head_tail_lines_witness:
  "resolvePath [''proj''] (toStr (path (linesArgs (Some 2)))) = Inr [''proj'', ''a.txt'']
   \<and> lookup (projWith threeLines) [''proj'', ''a.txt''] = Some (File threeLines)
   \<and> (2::int) = linesOrDefault (lines (linesArgs (Some 2))) \<and> (1::int) \<le> 2
   \<and> 3 = length (split CHR 0x0A threeLines)
   \<and> headFile [''proj''] (linesArgs (Some 2)) (projWith threeLines) =
        (Output (''x'' @ [CHR 0x0A] @ ''y''), projWith threeLines)
   \<and> tailFile [''proj''] (linesArgs (Some 2)) (projWith threeLines) =
        (Output (''y'' @ [CHR 0x0A] @ ''z''), projWith threeLines)"
proof -
  have a: "resolvePath [''proj''] (toStr (path (linesArgs (Some 2)))) = Inr [''proj'', ''a.txt'']"
    by (simp add: linesArgs_def emptyArgs_def toStr_def resolvePath_a_txt)
  have c: "(2::int) = linesOrDefault (lines (linesArgs (Some 2)))"
    by (simp add: linesArgs_def emptyArgs_def linesOrDefault_def)
  have d: "3 = length (split CHR 0x0A threeLines)"
    by (simp add: split_threeLines)
  show ?thesis
    using a c d head_tail_lines[OF a lookup_projWith c _ d]
    by (simp add: split_threeLines lookup_projWith)
qed

text \<open>
  The claim as the specification words it, for every count, fails at the count 0: the
  first \<open>min 0 k\<close> lines are no lines, and \<open>head_file\<close> returns the whole
  three-line file.
\<close>

theorem head_zero_counterexample:
  "headFile [''proj''] (linesArgs (Some 0)) (projWith threeLines) =
     (Output threeLines, projWith threeLines)
   \<and> join [CHR 0x0A] (take (min (nat 0) 3) (split CHR 0x0A threeLines)) \<noteq> threeLines"
  by code_simp

subsection \<open>Editing a file\<close>

lemma getSubstitution_plain:
  "CHR ''$'' \<notin> set r \<Longrightarrow> getSubstitution m pre post r = r"
  by (induction m pre post r rule: getSubstitution.induct) auto

lemma startsWith_prefix: "startsWith p s = prefix p s"
  by (induction p s rule: startsWith.induct) auto

text \<open>\<open>indexOf\<close> finds the first position at which the pattern occurs.\<close>

lemma indexOf_first:
  "indexOf p s = Some i \<Longrightarrow>
     i + length p \<le> length s \<and> take (length p) (drop i s) = p
     \<and> (\<forall>j < i. \<not> prefix p (drop j s))"
proof (induction s arbitrary: i)
  case Nil
  then show ?case by (auto simp: startsWith_prefix split: if_splits)
next
  case (Cons c cs)
  show ?case
  proof (cases "prefix p (c # cs)")
    case True
    then have "i = 0" using Cons.prems by (simp add: startsWith_prefix)
    then show ?thesis using True prefix_length_le[OF True] by (auto simp: prefix_def)
  next
    case False
    then obtain i' where i': "indexOf p cs = Some i'" "i = Suc i'"
      using Cons.prems by (auto simp: startsWith_prefix)
    from Cons.IH[OF i'(1)] show ?thesis using i'(2) False
      by (auto simp: less_Suc_eq_0_disj)
  qed
qed

text \<open>
  With a new string that holds no dollar sign, \<open>replace\<close> puts the new string in
  the place of that first occurrence.
\<close>

lemma replace_plain:
  "CHR ''$'' \<notin> set r \<Longrightarrow> indexOf p s = Some i \<Longrightarrow>
     replace s p r = take i s @ r @ drop (i + length p) s"
  by (simp add: replace_def getSubstitution_plain)

lemma map_of_replace:
  "map_of es s = Some ch \<Longrightarrow>
     map_of (map (\<lambda>(k, v). if k = s then (k, ch') else (k, v)) es) s = Some ch'"
  by (induction es) (auto split: if_splits)

lemma writeFileSync_existing:
  "lookup fs p = Some (File c) \<Longrightarrow>
     \<exists>fs'. writeFileSync fs p c' = Inr fs' \<and> lookup fs' p = Some (File c')"
proof (induction fs p c' rule: writeFileSync.induct)
  case (4 es s ss c')
  from "4.prems" obtain ch where ch: "map_of es s = Some ch" "lookup ch ss = Some (File c)"
    by (auto split: option.splits)
  from "4.IH"[OF ch(1) ch(2)] obtain ch' where
    w: "writeFileSync ch ss c' = Inr ch'" "lookup ch' ss = Some (File c')"
    by blast
  show ?case using ch w by (simp add: map_of_replace)
qed auto

text \<open>
  What does hold of \<open>editFile\<close>: on a file that the path argument reaches and that
  contains the old string, with a new string free of dollar signs, the edit is
  confirmed and the file then holds the text with the first occurrence replaced.
\<close>

lemma editFile_plain:
  assumes inside: "resolvePath projectRoot (toStr (path a)) = Inr filePath"
    and isfile: "lookup fs filePath = Some (File txt)"
    and found: "indexOf (toStr (old_string a)) txt = Some i"
    and plain: "CHR ''$'' \<notin> set (toStr (new_string a))"
  shows "\<exists>fs'. editFile projectRoot a fs = (Output (''File edited: '' @ toStr (path a)), fs')
           \<and> lookup fs' filePath =
               Some (File (take i txt @ toStr (new_string a)
                            @ drop (i + length (toStr (old_string a))) txt))"
proof -
  let ?new = "take i txt @ toStr (new_string a) @ drop (i + length (toStr (old_string a))) txt"
  have r: "replace txt (toStr (old_string a)) (toStr (new_string a)) = ?new"
    using plain found by (rule replace_plain)
  from writeFileSync_existing[OF isfile, of ?new] obtain fs' where
    w: "writeFileSync fs filePath ?new = Inr fs'" "lookup fs' filePath = Some (File ?new)"
    by blast
  have "editFile projectRoot a fs = (Output (''File edited: '' @ toStr (path a)), fs')"
    using inside isfile found w(1)
    by (simp add: editFile_def catch_def Let_def existsSync_lookup readFileSync_File
        includesStr_def r)
  then show ?thesis using w(2) by blast
qed

text \<open>The scenario of the specification: \<^verbatim>\<open>foobaz\<close> becomes \<^verbatim>\<open>barbaz\<close>.\<close>

lemma editFile_foobaz:
  "editFile [''proj''] (fooArgs ''bar'') (projWith ''foobaz'') =
     (Output ''File edited: a.txt'', projWith ''barbaz'')"
  by code_simp

text \<open>
  Claim C4 at a new string that holds a replacement pattern. The file contains the old
  string \<^verbatim>\<open>foo\<close>, the new string is two dollar signs, and the edit is confirmed; but
  \<^verbatim>\<open>String.prototype.replace\<close> expands \<^verbatim>\<open>$$\<close> to one dollar sign, so the file that
  is written holds \<^verbatim>\<open>$baz\<close>, which is not the txt with \<^verbatim>\<open>foo\<close> replaced by the new
  string.
\<close>

theorem editFile_dollar_pattern:
  "editFile [''proj''] (fooArgs ''$$'') (projWith ''foobaz'') =
     (Output ''File edited: a.txt'', projWith ''$baz'')
   \<and> indexOf ''foo'' ''foobaz'' = Some 0
   \<and> take 0 ''foobaz'' @ ''$$'' @ drop (0 + length ''foo'') ''foobaz'' = ''$$baz''"
  by code_simp

subsection \<open>The shape of a result\<close>

lemma catch_one:
  "(case fst r of Inl e \<Rightarrow> True
    | Inr res \<Rightarrow> (toolOutput res = None) \<noteq> (error res = None)) \<Longrightarrow>
   (toolOutput (fst (catch r)) = None) \<noteq> (error (fst (catch r)) = None)"
  by (auto simp: catch_def Failure_def split: sum.splits)

lemma readFile_one:
  "(toolOutput (fst (readFile r a fs)) = None) \<noteq> (error (fst (readFile r a fs)) = None)"
  unfolding readFile_def
  by (rule catch_one) (auto simp: Output_def Failure_def split: sum.splits)

lemma writeFile_one:
  "(toolOutput (fst (writeFile r a fs)) = None) \<noteq> (error (fst (writeFile r a fs)) = None)"
  unfolding writeFile_def
  by (rule catch_one) (auto simp: Output_def Failure_def Let_def split: sum.splits)

lemma headFile_one:
  "(toolOutput (fst (headFile r a fs)) = None) \<noteq> (error (fst (headFile r a fs)) = None)"
  unfolding headFile_def
  by (rule catch_one) (auto simp: Output_def Failure_def Let_def split: sum.splits)

lemma tailFile_one:
  "(toolOutput (fst (tailFile r a fs)) = None) \<noteq> (error (fst (tailFile r a fs)) = None)"
  unfolding tailFile_def
  by (rule catch_one) (auto simp: Output_def Failure_def Let_def split: sum.splits)

lemma listDir_one:
  "(toolOutput (fst (listDir r a fs)) = None) \<noteq> (error (fst (listDir r a fs)) = None)"
  unfolding listDir_def
  by (rule catch_one) (auto simp: Output_def Failure_def Let_def split: sum.splits)

lemma editFile_one:
  "(toolOutput (fst (editFile r a fs)) = None) \<noteq> (error (fst (editFile r a fs)) = None)"
  unfolding editFile_def
  by (rule catch_one) (auto simp: Output_def Failure_def Let_def split: sum.splits)

lemma runCommand_one:
  "(toolOutput (fst (runCommand sh r a fs)) = None)
     \<noteq> (error (fst (runCommand sh r a fs)) = None)"
  by (auto simp: runCommand_def Output_def Failure_def Let_def
      split: prod.splits exec_outcome.splits)

lemma executeTool_one:
  "(toolOutput (fst (executeTool sh r tool a fs)) = None)
     \<noteq> (error (fst (executeTool sh r tool a fs)) = None)"
  unfolding executeTool_def
  using readFile_one writeFile_one headFile_one tailFile_one listDir_one editFile_one
    runCommand_one
  by (simp add: Failure_def)

lemma readFile_empty:
  "resolvePath projectRoot (toStr (path a)) = Inr filePath \<Longrightarrow>
   lookup fs filePath = Some (File []) \<Longrightarrow>
   readFile projectRoot a fs = (Output [], fs)"
  by (simp add: readFile_def catch_def readFileSync_File existsSync_lookup)

lemma listDir_empty:
  "resolvePath projectRoot (toStr (path a)) = Inr dirPath \<Longrightarrow>
   lookup fs dirPath = Some (Dir []) \<Longrightarrow>
   listDir projectRoot a fs = (Output ''(empty directory)'', fs)"
  by (simp add: listDir_def catch_def readdirSync_def existsSync_lookup)

lemma runCommand_empty:
  "fst (sh (toStr (command a)) projectRoot fs) = ExecReturns [] \<Longrightarrow>
   fst (runCommand sh projectRoot a fs) = Output ''(no output)''"
  by (auto simp: runCommand_def split: prod.splits exec_outcome.splits)

text \<open>
  Claim C9, as the code has it. Every result of \<open>executeTool\<close> has exactly one of
  its two fields. Reading an empty file succeeds with the empty string, whereas an
  empty directory listing and an empty command output are replaced by the sentinels
  \<^verbatim>\<open>(empty directory)\<close> and \<^verbatim>\<open>(no output)\<close>.
\<close>

theorem tool_result_shape:
  "((toolOutput (fst (executeTool sh projectRoot tool a fs)) = None)
      \<noteq> (error (fst (executeTool sh projectRoot tool a fs)) = None))
   \<and> (resolvePath projectRoot (toStr (path a)) = Inr p \<and> lookup fs p = Some (File [])
        \<longrightarrow> fst (executeTool sh projectRoot ''read_file'' a fs) = Output [])
   \<and> (resolvePath projectRoot (toStr (path a)) = Inr p \<and> lookup fs p = Some (Dir [])
        \<longrightarrow> fst (executeTool sh projectRoot ''list_dir'' a fs) = Output ''(empty directory)'')
   \<and> (fst (sh (toStr (command a)) projectRoot fs) = ExecReturns []
        \<longrightarrow> fst (executeTool sh projectRoot ''run_command'' a fs) = Output ''(no output)'')"
proof (intro conjI impI)
  show "(toolOutput (fst (executeTool sh projectRoot tool a fs)) = None)
      \<noteq> (error (fst (executeTool sh projectRoot tool a fs)) = None)"
    by (rule executeTool_one)
next
  assume "resolvePath projectRoot (toStr (path a)) = Inr p \<and> lookup fs p = Some (File [])"
  then show "fst (executeTool sh projectRoot ''read_file'' a fs) = Output []"
    by (simp add: executeTool_def readFile_empty)
next
  assume "resolvePath projectRoot (toStr (path a)) = Inr p \<and> lookup fs p = Some (Dir [])"
  then show "fst (executeTool sh projectRoot ''list_dir'' a fs) = Output ''(empty directory)''"
    by (simp add: executeTool_def listDir_empty)
next
  assume "fst (sh (toStr (command a)) projectRoot fs) = ExecReturns []"
  then show "fst (executeTool sh projectRoot ''run_command'' a fs) = Output ''(no output)''"
    by (simp add: executeTool_def runCommand_empty)
qed

lemma resolvePath_dot: "resolvePath [''proj''] ''.'' = Inr [''proj'']"
  by (simp add: resolvePath_def resolve_def relative_def isAbsolute_def)

theorem tool_result_shape_witness:
  "resolvePath [''proj''] (toStr (path dotArgs)) = Inr [''proj'']
   \<and> lookup emptyProj [''proj''] = Some (Dir [])
   \<and> fst (idleShell (toStr (command trueArgs)) [''proj''] emptyProj) = ExecReturns []
   \<and> fst (executeTool idleShell [''proj''] ''list_dir'' dotArgs emptyProj)
        = Output ''(empty directory)''
   \<and> fst (executeTool idleShell [''proj''] ''run_command'' trueArgs emptyProj)
        = Output ''(no output)''
   \<and> resolvePath [''proj''] (toStr (path (linesArgs None))) = Inr [''proj'', ''a.txt'']
   \<and> lookup (projWith []) [''proj'', ''a.txt''] = Some (File [])
   \<and> fst (executeTool idleShell [''proj''] ''read_file'' (linesArgs None) (projWith []))
        = Output []"
proof -
  have a: "resolvePath [''proj''] (toStr (path dotArgs)) = Inr [''proj'']"
    by (simp add: dotArgs_def emptyArgs_def toStr_def resolvePath_dot)
  have b: "lookup emptyProj [''proj''] = Some (Dir [])"
    by (simp add: emptyProj_def)
  have c: "fst (idleShell (toStr (command trueArgs)) [''proj''] emptyProj) = ExecReturns []"
    by (simp add: idleShell_def)
  have d: "resolvePath [''proj''] (toStr (path (linesArgs None))) = Inr [''proj'', ''a.txt'']"
    by (simp add: linesArgs_def emptyArgs_def toStr_def resolvePath_a_txt)
  show ?thesis
    using a b c d lookup_projWith[of "[]"]
      tool_result_shape[of idleShell "[''proj'']" "''list_dir''" dotArgs emptyProj "[''proj'']"]
      tool_result_shape[of idleShell "[''proj'']" "''run_command''" trueArgs emptyProj "[]"]
      tool_result_shape[of idleShell "[''proj'']" "''read_file''" "linesArgs None" "projWith []"
        "[''proj'', ''a.txt'']"]
    by simp
qed

text \<open>
  The claim as the specification words it, with no sentinel in the place of an empty
  output, fails on an empty directory and on a command that prints nothing: the
  listing and the captured output are empty, and the results hold the sentinels.
\<close>

theorem empty_output_counterexample:
  "join [CHR 0x0A] (listRecursive False [] []) = []
   \<and> toolOutput (fst (executeTool idleShell [''proj''] ''list_dir'' dotArgs emptyProj))
        = Some ''(empty directory)''
   \<and> fst (idleShell ''true'' [''proj''] emptyProj) = ExecReturns []
   \<and> toolOutput (fst (executeTool idleShell [''proj''] ''run_command'' trueArgs emptyProj))
        = Some ''(no output)''"
  by code_simp

section \<open>Properties of the agent\<close>

subsection \<open>Retrying the completion boundary\<close>

text \<open>
  The general form: from attempt \<open>attempt\<close> on, \<open>j\<close> rate-limit errors in a row are
  each followed by one delay and one more call, and the outcome of the call after
  them is the outcome of the function, unless that call is still inside the loop and
  fails with a rate-limit error too.
\<close>

lemma retry_general:
  assumes "attempt + j \<le> maxRetries"
    and "\<forall>i<j. \<exists>err. llm e (requests s @ replicate (Suc i) params) = Throws err \<and> isRateLimit err"
    and "attempt + j < maxRetries \<longrightarrow>
           (case llm e (requests s @ replicate (Suc j) params) of
              Throws err \<Rightarrow> \<not> isRateLimit err | Returns r \<Rightarrow> True)"
  shows "generateContentWithRetry e params maxRetries attempt s =
           (case llm e (requests s @ replicate (Suc j) params) of
              Returns r \<Rightarrow> Inr r | Throws err \<Rightarrow> Inl err,
            s\<lparr>requests := requests s @ replicate (Suc j) params,
              sleeps := sleeps s @ replicate j 60000\<rparr>)"
  using assms
proof (induction j arbitrary: attempt s)
  case 0
  then show ?case
    by (subst generateContentWithRetry.simps)
       (auto simp: generateContent_def split: api_outcome.splits)
next
  case (Suc j)
  from Suc.prems(2) obtain err where err: "llm e (requests s @ [params]) = Throws err" "isRateLimit err"
    by force
  let ?s1 = "sleep 60000 (s\<lparr>requests := requests s @ [params]\<rparr>)"
  have r1: "requests ?s1 = requests s @ [params]" by (simp add: sleep_def)
  have step: "generateContentWithRetry e params maxRetries attempt s =
              generateContentWithRetry e params maxRetries (attempt + 1) ?s1"
    using Suc.prems(1) err
    by (subst generateContentWithRetry.simps) (simp add: generateContent_def)
  have a: "attempt + 1 + j \<le> maxRetries" using Suc.prems(1) by simp
  have b: "\<forall>i<j. \<exists>err. llm e (requests ?s1 @ replicate (Suc i) params) = Throws err \<and> isRateLimit err"
  proof (intro allI impI)
    fix i assume "i < j"
    then have "Suc i < Suc j" by simp
    with Suc.prems(2) obtain er where "llm e (requests s @ replicate (Suc (Suc i)) params) = Throws er \<and> isRateLimit er"
      by blast
    then show "\<exists>err. llm e (requests ?s1 @ replicate (Suc i) params) = Throws err \<and> isRateLimit err"
      by (auto simp: r1)
  qed
  have c: "attempt + 1 + j < maxRetries \<longrightarrow>
           (case llm e (requests ?s1 @ replicate (Suc j) params) of
              Throws err \<Rightarrow> \<not> isRateLimit err | Returns r \<Rightarrow> True)"
    using Suc.prems(3) by (simp add: r1)
  show ?case
    unfolding step using Suc.IH[OF a b c]
    by (simp add: r1 sleep_def replicate_append_same)
qed

text \<open>
  Claim C8. Let the first \<open>j\<close> calls of the boundary fail with a rate-limit error,
  \<open>j\<close> at most the retry cap, and let the next call, if the cap is not yet reached,
  not be such an error. Then \<open>generateContentWithRetry\<close> makes exactly \<open>j + 1\<close>
  calls and sleeps \<open>j\<close> times for 60000 ms, and returns what the last call returned
  or throws what it threw. With \<open>j = 0\<close>: an error that is not a rate-limit error
  propagates after one call and no delay. With \<open>j\<close> the cap: the error of the call
  after the last retry is thrown, whatever it is.
\<close>

theorem rate_limit_retry:
  assumes "j \<le> maxRetries"
    and "\<forall>i<j. \<exists>err. llm e (requests s @ replicate (Suc i) params) = Throws err \<and> isRateLimit err"
    and "j < maxRetries \<longrightarrow>
           (case llm e (requests s @ replicate (Suc j) params) of
              Throws err \<Rightarrow> \<not> isRateLimit err | Returns r \<Rightarrow> True)"
  shows "generateContentWithRetry e params maxRetries 0 s =
           (case llm e (requests s @ replicate (Suc j) params) of
              Returns r \<Rightarrow> Inr r | Throws err \<Rightarrow> Inl err,
            s\<lparr>requests := requests s @ replicate (Suc j) params,
              sleeps := sleeps s @ replicate j 60000\<rparr>)"
  using retry_general[of 0 j maxRetries e s params] assms by simp

lemma isRateLimit_examples: "isRateLimit rateLimited" "\<not> isRateLimit serverError"
  by (simp_all add: isRateLimit_def rateLimited_def serverError_def orEmpty_def includesStr_def)

theorem rate_limit_retry_witness:
  "generateContentWithRetry (envWith (alwaysThrows rateLimited) deny) aRequest 3 0
       (stateWith conversation noPermissions) =
     (Inl rateLimited,
      (stateWith conversation noPermissions)
        \<lparr>requests := [aRequest, aRequest, aRequest, aRequest],
         sleeps := [60000, 60000, 60000]\<rparr>)
   \<and> isRateLimit rateLimited
   \<and> generateContentWithRetry (envWith (alwaysThrows serverError) deny) aRequest 3 0
       (stateWith conversation noPermissions) =
     (Inl serverError, (stateWith conversation noPermissions)\<lparr>requests := [aRequest], sleeps := []\<rparr>)
   \<and> \<not> isRateLimit serverError"
proof -
  let ?s = "stateWith conversation noPermissions"
  have rq: "requests ?s = []" "sleeps ?s = []" by (simp_all add: stateWith_def)
  have l1: "\<And>reqs. llm (envWith (alwaysThrows rateLimited) deny) reqs = Throws rateLimited"
    by (simp add: envWith_def alwaysThrows_def)
  have l2: "\<And>reqs. llm (envWith (alwaysThrows serverError) deny) reqs = Throws serverError"
    by (simp add: envWith_def alwaysThrows_def)
  have a: "(3::nat) \<le> 3" by simp
  have b: "\<forall>i<3. \<exists>err. llm (envWith (alwaysThrows rateLimited) deny)
              (requests ?s @ replicate (Suc i) aRequest) = Throws err \<and> isRateLimit err"
    by (simp add: l1 isRateLimit_examples)
  have c: "(3::nat) < 3 \<longrightarrow>
           (case llm (envWith (alwaysThrows rateLimited) deny) (requests ?s @ replicate (Suc 3) aRequest) of
              Throws err \<Rightarrow> \<not> isRateLimit err | Returns r \<Rightarrow> True)"
    by simp
  have a': "(0::nat) \<le> 3" by simp
  have b': "\<forall>i<0. \<exists>err. llm (envWith (alwaysThrows serverError) deny)
              (requests ?s @ replicate (Suc i) aRequest) = Throws err \<and> isRateLimit err"
    by simp
  have c': "(0::nat) < 3 \<longrightarrow>
           (case llm (envWith (alwaysThrows serverError) deny) (requests ?s @ replicate (Suc 0) aRequest) of
              Throws err \<Rightarrow> \<not> isRateLimit err | Returns r \<Rightarrow> True)"
    by (simp add: l2 isRateLimit_examples)
  show ?thesis
    using rate_limit_retry[OF a b c] rate_limit_retry[OF a' b' c']
    by (simp add: l1 l2 rq isRateLimit_examples numeral_3_eq_3)
qed

subsection \<open>Compaction\<close>

lemma partitionTurns_filter:
  "partitionTurns i cs = (t, ot, idx) \<Longrightarrow>
     t = filter hasToolCall cs \<and> ot = filter (\<lambda>m. \<not> hasToolCall m) cs \<and> length idx = length t"
  by (induction cs arbitrary: i t ot idx) (auto split: prod.splits if_splits)

lemma partitionTurns_indices:
  "partitionTurns i cs = (t, ot, idx) \<Longrightarrow>
     (k \<in> set idx) = (\<exists>j<length cs. k = i + j \<and> hasToolCall (cs ! j))"
proof (induction cs arbitrary: i t ot idx)
  case Nil
  then show ?case by simp
next
  case (Cons m rest)
  obtain t' ot' idx' where p: "partitionTurns (i + 1) rest = (t', ot', idx')"
    by (cases "partitionTurns (i + 1) rest") auto
  have IH: "(k \<in> set idx') = (\<exists>j<length rest. k = i + 1 + j \<and> hasToolCall (rest ! j))"
    using Cons.IH[OF p] .
  have shift: "(\<exists>j<length (m # rest). k = i + j \<and> hasToolCall ((m # rest) ! j))
      = ((k = i \<and> hasToolCall m) \<or> (\<exists>j<length rest. k = i + 1 + j \<and> hasToolCall (rest ! j)))"
    (is "?L = ?R")
  proof
    assume ?L
    then obtain j where j: "j < length (m # rest)" "k = i + j" "hasToolCall ((m # rest) ! j)"
      by blast
    show ?R
    proof (cases j)
      case 0
      then show ?thesis using j by simp
    next
      case (Suc j')
      then show ?thesis using j by auto
    qed
  next
    assume ?R
    then show ?L
    proof
      assume "k = i \<and> hasToolCall m"
      then show ?L by (intro exI[of _ 0]) simp
    next
      assume "\<exists>j<length rest. k = i + 1 + j \<and> hasToolCall (rest ! j)"
      then obtain j where "j < length rest" "k = i + 1 + j" "hasToolCall (rest ! j)" by blast
      then show ?L by (intro exI[of _ "Suc j"]) simp
    qed
  qed
  show ?case
    unfolding shift using Cons.prems p IH by (auto split: if_splits)
qed

lemma partitionTurns_sorted:
  "partitionTurns i cs = (t, ot, idx) \<Longrightarrow> sorted idx"
proof (induction cs arbitrary: i t ot idx)
  case Nil
  then show ?case by simp
next
  case (Cons m rest)
  obtain t' ot' idx' where p: "partitionTurns (i + 1) rest = (t', ot', idx')"
    by (cases "partitionTurns (i + 1) rest") auto
  have s: "sorted idx'" using Cons.IH[OF p] .
  have ge: "\<forall>k\<in>set idx'. i \<le> k"
    using partitionTurns_indices[OF p] by auto
  show ?case using Cons.prems p s ge by (auto split: if_splits)
qed

lemma sorted_le_last: "sorted (xs :: nat list) \<Longrightarrow> x \<in> set xs \<Longrightarrow> x \<le> last xs"
  by (induction xs) auto

lemma spliceSummary_added:
  "(\<forall>j<length xs. (i + j \<in> set idx) = hasToolCall (xs ! j)) \<Longrightarrow>
     spliceSummary idx summ i xs True = (filter (\<lambda>m. \<not> hasToolCall m) xs, True)"
proof (induction xs arbitrary: i)
  case Nil
  then show ?case by simp
next
  case (Cons m rest)
  have hd: "(i \<in> set idx) = hasToolCall m" using Cons.prems by force
  have tl: "\<forall>j<length rest. (i + 1 + j \<in> set idx) = hasToolCall (rest ! j)"
  proof (intro allI impI)
    fix j assume "j < length rest"
    then have "Suc j < length (m # rest)" by simp
    with Cons.prems have "(i + Suc j \<in> set idx) = hasToolCall ((m # rest) ! Suc j)" by blast
    then show "(i + 1 + j \<in> set idx) = hasToolCall (rest ! j)" by simp
  qed
  show ?case using Cons.IH[OF tl] hd by simp
qed

lemma spliceSummary_fresh:
  assumes "\<forall>j<length xs. (i + j \<in> set idx) = hasToolCall (xs ! j)"
    and "idx \<noteq> []"
    and "\<forall>k\<in>set idx. k \<le> last idx"
  shows "spliceSummary idx summ i xs False =
           (filter (\<lambda>m. \<not> hasToolCall m) (take (Suc (last idx) - i) xs)
              @ (if drop (Suc (last idx) - i) xs = [] then []
                 else summ # drop (Suc (last idx) - i) xs),
            drop (Suc (last idx) - i) xs \<noteq> [])"
  using assms(1)
proof (induction xs arbitrary: i)
  case Nil
  then show ?case by simp
next
  case (Cons m rest)
  have hd: "(i \<in> set idx) = hasToolCall m" using Cons.prems by force
  have tl: "\<forall>j<length rest. (i + 1 + j \<in> set idx) = hasToolCall (rest ! j)"
  proof (intro allI impI)
    fix j assume "j < length rest"
    then have "Suc j < length (m # rest)" by simp
    with Cons.prems have "(i + Suc j \<in> set idx) = hasToolCall ((m # rest) ! Suc j)" by blast
    then show "(i + 1 + j \<in> set idx) = hasToolCall (rest ! j)" by simp
  qed
  note IH = Cons.IH[OF tl]
  show ?case
  proof (cases "i \<in> set idx")
    case True
    then have le: "i \<le> last idx" using assms(3) by blast
    then have e: "Suc (last idx) - i = Suc (Suc (last idx) - (i + 1))" by simp
    show ?thesis using True hd IH by (simp add: e)
  next
    case False
    show ?thesis
    proof (cases "i > last idx")
      case True
      have allplain: "filter (\<lambda>m. \<not> hasToolCall m) rest = rest"
      proof -
        have "\<forall>x\<in>set rest. \<not> hasToolCall x"
        proof
          fix x assume "x \<in> set rest"
          then obtain j where j: "j < length rest" "rest ! j = x" by (auto simp: in_set_conv_nth)
          have "i + 1 + j \<notin> set idx" using assms(3) True by force
          then show "\<not> hasToolCall x" using tl j by blast
        qed
        then show ?thesis by simp
      qed
      have z: "Suc (last idx) - i = 0" using True by simp
      show ?thesis using False True assms(2) spliceSummary_added[OF tl, of summ] allplain
        by (simp add: z)
    next
      case le: False
      then have e: "Suc (last idx) - i = Suc (Suc (last idx) - (i + 1))" by simp
      show ?thesis using False le hd IH by (simp add: e)
    qed
  qed
qed

lemma spliceSummary_result:
  assumes p: "partitionTurns 0 cs = (t, ot, idx)" and ne: "idx \<noteq> []"
    and sp: "spliceSummary idx summ 0 cs False = (result, added)"
  shows "(if \<not> added then result @ [summ] else result) =
           filter (\<lambda>m. \<not> hasToolCall m) (take (Suc (last idx)) cs) @ [summ] @ drop (Suc (last idx)) cs"
    and "last idx < length cs" and "hasToolCall (cs ! last idx)"
    and "\<forall>m\<in>set (drop (Suc (last idx)) cs). \<not> hasToolCall m"
proof -
  have A: "\<forall>j<length cs. (0 + j \<in> set idx) = hasToolCall (cs ! j)"
    using partitionTurns_indices[OF p] by auto
  have D: "\<forall>k\<in>set idx. k \<le> last idx"
    using sorted_le_last[OF partitionTurns_sorted[OF p]] by blast
  have "last idx \<in> set idx" using ne by simp
  then show L: "last idx < length cs" and T: "hasToolCall (cs ! last idx)"
    using partitionTurns_indices[OF p, of "last idx"] by auto
  show P: "\<forall>m\<in>set (drop (Suc (last idx)) cs). \<not> hasToolCall m"
  proof
    fix m assume "m \<in> set (drop (Suc (last idx)) cs)"
    then obtain j where j: "j < length cs - Suc (last idx)" "cs ! (Suc (last idx) + j) = m"
      by (auto simp: in_set_conv_nth)
    have "Suc (last idx) + j \<notin> set idx" using D by force
    then show "\<not> hasToolCall m" using A j by force
  qed
  from spliceSummary_fresh[OF A ne D, of summ] sp
  show "(if \<not> added then result @ [summ] else result) =
           filter (\<lambda>m. \<not> hasToolCall m) (take (Suc (last idx)) cs) @ [summ] @ drop (Suc (last idx)) cs"
    by (auto split: if_splits)
qed

lemma summarizeToolCalls_skip:
  "length (filter hasToolCall (arrays s cur)) < 4 \<Longrightarrow> summarizeToolCalls e cur s = (Inr cur, s)"
  by (cases "partitionTurns 0 (arrays s cur)")
     (auto simp: summarizeToolCalls_def dest: partitionTurns_filter)

lemma summarizeToolCalls_fires:
  assumes four: "4 \<le> length (filter hasToolCall (arrays s cur))"
  shows "case generateContentWithRetry e (summaryParams e s (filter hasToolCall (arrays s cur))) 3 0 s of
           (Inl err, s1) \<Rightarrow> summarizeToolCalls e cur s = (Inl err, s1)
         | (Inr resp, s1) \<Rightarrow>
             \<exists>pre post. arrays s cur = pre @ post \<and> pre \<noteq> [] \<and> hasToolCall (last pre)
               \<and> (\<forall>m\<in>set post. \<not> hasToolCall m)
               \<and> summarizeToolCalls e cur s =
                   (Inr (nextAddr s1),
                    s1\<lparr>arrays := (arrays s1)(nextAddr s1 :=
                           filter (\<lambda>m. \<not> hasToolCall m) pre @ [summaryTurn (summaryOf resp)] @ post),
                        nextAddr := Suc (nextAddr s1)\<rparr>)"
proof -
  obtain t ot idx where p: "partitionTurns 0 (arrays s cur) = (t, ot, idx)"
    by (cases "partitionTurns 0 (arrays s cur)") auto
  note pf = partitionTurns_filter[OF p]
  have t: "t = filter hasToolCall (arrays s cur)" using pf by simp
  have ne: "idx \<noteq> []" using pf four by auto
  have len: "\<not> length t < 4" using four t by simp
  let ?g = "generateContentWithRetry e (summaryParams e s (filter hasToolCall (arrays s cur))) 3 0 s"
  obtain res s1 where g: "?g = (res, s1)" by (cases ?g) auto
  show ?thesis
  proof (cases res)
    case (Inl err)
    then show ?thesis using g p len t
      by (simp add: summarizeToolCalls_def Let_def)
  next
    case (Inr resp)
    let ?summ = "summaryTurn (summaryOf resp)"
    obtain result added where sp: "spliceSummary idx ?summ 0 (arrays s cur) False = (result, added)"
      by (cases "spliceSummary idx ?summ 0 (arrays s cur) False") auto
    note R = spliceSummary_result[OF p ne sp]
    let ?pre = "take (Suc (last idx)) (arrays s cur)"
    let ?post = "drop (Suc (last idx)) (arrays s cur)"
    have lastpre: "last ?pre = arrays s cur ! last idx"
      using R(2) by (simp add: take_Suc_conv_app_nth)
    have prene: "?pre \<noteq> []" using R(2) by auto
    have eq: "summarizeToolCalls e cur s =
                   (Inr (nextAddr s1),
                    s1\<lparr>arrays := (arrays s1)(nextAddr s1 :=
                           filter (\<lambda>m. \<not> hasToolCall m) ?pre @ [?summ] @ ?post),
                        nextAddr := Suc (nextAddr s1)\<rparr>)"
    proof -
      have "summarizeToolCalls e cur s =
                   (Inr (nextAddr s1),
                    s1\<lparr>arrays := (arrays s1)(nextAddr s1 :=
                           (if \<not> added then result @ [?summ] else result)),
                        nextAddr := Suc (nextAddr s1)\<rparr>)"
        using g p len t Inr sp
        by (simp add: summarizeToolCalls_def Let_def alloc_def)
      then show ?thesis by (simp only: R(1))
    qed
    have "arrays s cur = ?pre @ ?post \<and> ?pre \<noteq> [] \<and> hasToolCall (last ?pre)
               \<and> (\<forall>m\<in>set ?post. \<not> hasToolCall m)"
      using prene lastpre R(3,4) by simp
    then show ?thesis using g Inr eq by (simp only: prod.case sum.case) blast
  qed
qed

lemma summaryTurn_plain: "\<not> hasToolCall (summaryTurn x)"
  by (simp add: summaryTurn_def hasToolCall_def)

text \<open>
  Claim C3. With fewer than four tool turns, \<open>summarizeToolCalls\<close> returns the
  array it was given and changes nothing. With four or more, whenever it returns, the
  old conversation splits into a part that ends with its last tool turn and a rest of
  plain turns, and the new conversation is the plain turns of the first part, one
  summary turn (itself plain), and the rest: the plain turns are all there in their
  order, no tool turn is left, and the new conversation is shorter. It does return
  whenever the completion boundary answers.
\<close>

theorem compaction_safety:
  "(length (filter hasToolCall (arrays s cur)) < 4 \<longrightarrow>
      summarizeToolCalls e cur s = (Inr cur, s))
   \<and> (4 \<le> length (filter hasToolCall (arrays s cur))
        \<and> fst (summarizeToolCalls e cur s) = Inr r \<longrightarrow>
        (\<exists>pre post summary.
           arrays s cur = pre @ post \<and> pre \<noteq> [] \<and> hasToolCall (last pre)
           \<and> (\<forall>m\<in>set post. \<not> hasToolCall m)
           \<and> arrays (snd (summarizeToolCalls e cur s)) r =
                filter (\<lambda>m. \<not> hasToolCall m) pre @ [summaryTurn summary] @ post
           \<and> \<not> hasToolCall (summaryTurn summary)
           \<and> filter (\<lambda>m. \<not> hasToolCall m) pre @ post =
                filter (\<lambda>m. \<not> hasToolCall m) (arrays s cur)
           \<and> length (arrays (snd (summarizeToolCalls e cur s)) r) < length (arrays s cur)))
   \<and> (4 \<le> length (filter hasToolCall (arrays s cur))
        \<and> (\<forall>reqs. \<exists>resp. llm e reqs = Returns resp) \<longrightarrow>
        (\<exists>r. fst (summarizeToolCalls e cur s) = Inr r))"
proof (intro conjI impI)
  assume "length (filter hasToolCall (arrays s cur)) < 4"
  then show "summarizeToolCalls e cur s = (Inr cur, s)"
    by (rule summarizeToolCalls_skip)
next
  assume a: "4 \<le> length (filter hasToolCall (arrays s cur))
               \<and> fst (summarizeToolCalls e cur s) = Inr r"
  let ?cs = "arrays s cur"
  let ?g = "generateContentWithRetry e (summaryParams e s (filter hasToolCall ?cs)) 3 0 s"
  obtain res s1 where g: "?g = (res, s1)" by (cases ?g) auto
  from a summarizeToolCalls_fires[of s cur e] g obtain resp where res: "res = Inr resp"
    by (cases res) auto
  from a summarizeToolCalls_fires[of s cur e] g res
  obtain pre post where pp: "?cs = pre @ post" "pre \<noteq> []" "hasToolCall (last pre)"
      "\<forall>m\<in>set post. \<not> hasToolCall m"
    and eq: "summarizeToolCalls e cur s =
               (Inr (nextAddr s1),
                s1\<lparr>arrays := (arrays s1)(nextAddr s1 :=
                       filter (\<lambda>m. \<not> hasToolCall m) pre @ [summaryTurn (summaryOf resp)] @ post),
                    nextAddr := Suc (nextAddr s1)\<rparr>)"
    by auto
  have r: "r = nextAddr s1" using a eq by simp
  have arr: "arrays (snd (summarizeToolCalls e cur s)) r =
               filter (\<lambda>m. \<not> hasToolCall m) pre @ [summaryTurn (summaryOf resp)] @ post"
    using eq r by simp
  have fpost: "filter (\<lambda>m. \<not> hasToolCall m) post = post"
    using pp(4) by simp
  have plainEq: "filter (\<lambda>m. \<not> hasToolCall m) pre @ post = filter (\<lambda>m. \<not> hasToolCall m) ?cs"
    using pp(1) fpost by simp
  have count: "length ?cs = length (filter hasToolCall ?cs) + length (filter (\<lambda>m. \<not> hasToolCall m) ?cs)"
    using sum_length_filter_compl[of hasToolCall ?cs] by simp
  have "length (filter (\<lambda>m. \<not> hasToolCall m) pre @ [summaryTurn (summaryOf resp)] @ post)
          = length (filter (\<lambda>m. \<not> hasToolCall m) ?cs) + 1"
    using plainEq[symmetric] by (simp del: filter_append)
  then have less: "length (arrays (snd (summarizeToolCalls e cur s)) r) < length ?cs"
    using arr count a by simp
  show "\<exists>pre post summary.
           arrays s cur = pre @ post \<and> pre \<noteq> [] \<and> hasToolCall (last pre)
           \<and> (\<forall>m\<in>set post. \<not> hasToolCall m)
           \<and> arrays (snd (summarizeToolCalls e cur s)) r =
                filter (\<lambda>m. \<not> hasToolCall m) pre @ [summaryTurn summary] @ post
           \<and> \<not> hasToolCall (summaryTurn summary)
           \<and> filter (\<lambda>m. \<not> hasToolCall m) pre @ post =
                filter (\<lambda>m. \<not> hasToolCall m) (arrays s cur)
           \<and> length (arrays (snd (summarizeToolCalls e cur s)) r) < length (arrays s cur)"
    using pp arr plainEq less summaryTurn_plain by blast
next
  assume a: "4 \<le> length (filter hasToolCall (arrays s cur))
               \<and> (\<forall>reqs. \<exists>resp. llm e reqs = Returns resp)"
  let ?p = "summaryParams e s (filter hasToolCall (arrays s cur))"
  from a obtain resp where resp: "llm e (requests s @ [?p]) = Returns resp" by blast
  have "fst (generateContentWithRetry e ?p 3 0 s) = Inr resp"
    using resp by (subst generateContentWithRetry.simps) (simp add: generateContent_def)
  then show "\<exists>r. fst (summarizeToolCalls e cur s) = Inr r"
    using a summarizeToolCalls_fires[of s cur e]
    by (cases "generateContentWithRetry e ?p 3 0 s") auto
qed

lemma conversation_tools: "filter hasToolCall conversation = [callTurn, resultTurn, callTurn, resultTurn]"
  by (simp add: conversation_def hasToolCall_def userTurn_def callTurn_def resultTurn_def toolResponse_def)

lemma compaction_example:
  "fst (summarizeToolCalls (envWith (alwaysReturns summaryResponse) deny) 0
          (stateWith conversation noPermissions)) = Inr 1"
  "arrays (snd (summarizeToolCalls (envWith (alwaysReturns summaryResponse) deny) 0
          (stateWith conversation noPermissions))) 1 =
     [userTurn ''hi'', userTurn ''more'', summaryTurn ''read a.txt twice'', userTurn ''bye'']"
  by code_simp+

theorem compaction_safety_witness:
  "4 \<le> length (filter hasToolCall (arrays (stateWith conversation noPermissions) 0))
   \<and> fst (summarizeToolCalls (envWith (alwaysReturns summaryResponse) deny) 0
            (stateWith conversation noPermissions)) = Inr 1
   \<and> arrays (snd (summarizeToolCalls (envWith (alwaysReturns summaryResponse) deny) 0
            (stateWith conversation noPermissions))) 1 =
        [userTurn ''hi'', userTurn ''more'', summaryTurn ''read a.txt twice'', userTurn ''bye'']
   \<and> length (arrays (snd (summarizeToolCalls (envWith (alwaysReturns summaryResponse) deny) 0
            (stateWith conversation noPermissions))) 1)
        < length (arrays (stateWith conversation noPermissions) 0)
   \<and> length (filter hasToolCall (arrays (stateWith [userTurn ''hi'', callTurn] noPermissions) 0)) < 4
   \<and> summarizeToolCalls (envWith (alwaysReturns summaryResponse) deny) 0
        (stateWith [userTurn ''hi'', callTurn] noPermissions) =
        (Inr 0, stateWith [userTurn ''hi'', callTurn] noPermissions)"
proof -
  have four: "4 \<le> length (filter hasToolCall (arrays (stateWith conversation noPermissions) 0))"
    by (simp add: stateWith_def arrayAt0_def conversation_tools)
  have few: "length (filter hasToolCall (arrays (stateWith [userTurn ''hi'', callTurn] noPermissions) 0)) < 4"
    by (simp add: stateWith_def arrayAt0_def)
  show ?thesis
    using four few compaction_example
      compaction_safety[of "stateWith conversation noPermissions" 0
        "envWith (alwaysReturns summaryResponse) deny" 1]
      compaction_safety[of "stateWith [userTurn ''hi'', callTurn] noPermissions" 0
        "envWith (alwaysReturns summaryResponse) deny" 0]
    by simp blast
qed

text \<open>
  Claim C10. A turn is a tool turn exactly when one of its parts is a requested action
  or an action result. When compaction fires and returns, the turns of the new
  conversation are the plain turns of the old one and the summary turn: every tool
  turn is gone with all of its parts, the texts among them too.
\<close>

theorem compaction_drops_mixed_turns:
  "(hasToolCall m =
     (\<exists>p\<in>set (parts m). (\<exists>fc. p = FunctionCallPart fc)
        \<or> (\<exists>n payload. p = FunctionResponse n payload)))
   \<and> (4 \<le> length (filter hasToolCall (arrays s cur))
     \<and> fst (summarizeToolCalls e cur s) = Inr r \<longrightarrow>
     (\<exists>summary. set (arrays (snd (summarizeToolCalls e cur s)) r)
        = {t \<in> set (arrays s cur). \<not> hasToolCall t} \<union> {summaryTurn summary})
     \<and> (\<forall>t\<in>set (arrays s cur). hasToolCall t \<longrightarrow>
           t \<notin> set (arrays (snd (summarizeToolCalls e cur s)) r)))"
proof (rule conjI)
  have act: "\<And>p. isAction p = ((\<exists>fc. p = FunctionCallPart fc) \<or> (\<exists>n payload. p = FunctionResponse n payload))"
    subgoal for p by (cases p) auto
    done
  show "hasToolCall m =
     (\<exists>p\<in>set (parts m). (\<exists>fc. p = FunctionCallPart fc) \<or> (\<exists>n payload. p = FunctionResponse n payload))"
    by (simp add: hasToolCall_def list_ex_iff act)
  show "4 \<le> length (filter hasToolCall (arrays s cur))
     \<and> fst (summarizeToolCalls e cur s) = Inr r \<longrightarrow>
     (\<exists>summary. set (arrays (snd (summarizeToolCalls e cur s)) r)
        = {t \<in> set (arrays s cur). \<not> hasToolCall t} \<union> {summaryTurn summary})
     \<and> (\<forall>t\<in>set (arrays s cur). hasToolCall t \<longrightarrow>
           t \<notin> set (arrays (snd (summarizeToolCalls e cur s)) r))"
  proof
    assume a: "4 \<le> length (filter hasToolCall (arrays s cur))
               \<and> fst (summarizeToolCalls e cur s) = Inr r"
    let ?cs = "arrays s cur"
    let ?g = "generateContentWithRetry e (summaryParams e s (filter hasToolCall ?cs)) 3 0 s"
    obtain res s1 where g: "?g = (res, s1)" by (cases ?g) auto
    from a summarizeToolCalls_fires[of s cur e] g obtain resp where res: "res = Inr resp"
      by (cases res) auto
    from a summarizeToolCalls_fires[of s cur e] g res
    obtain pre post where pp: "?cs = pre @ post" "\<forall>t\<in>set post. \<not> hasToolCall t"
      and eq: "summarizeToolCalls e cur s =
               (Inr (nextAddr s1),
                s1\<lparr>arrays := (arrays s1)(nextAddr s1 :=
                       filter (\<lambda>t. \<not> hasToolCall t) pre @ [summaryTurn (summaryOf resp)] @ post),
                    nextAddr := Suc (nextAddr s1)\<rparr>)"
      by auto
    have r: "r = nextAddr s1" using a eq by simp
    have arr: "arrays (snd (summarizeToolCalls e cur s)) r =
               filter (\<lambda>t. \<not> hasToolCall t) pre @ [summaryTurn (summaryOf resp)] @ post"
      using eq r by simp
    have s1: "set (arrays (snd (summarizeToolCalls e cur s)) r)
        = {t \<in> set ?cs. \<not> hasToolCall t} \<union> {summaryTurn (summaryOf resp)}"
      unfolding arr using pp by auto
    have s2: "\<forall>t\<in>set ?cs. hasToolCall t \<longrightarrow> t \<notin> set (arrays (snd (summarizeToolCalls e cur s)) r)"
      unfolding s1 using summaryTurn_plain by auto
    show "(\<exists>summary. set (arrays (snd (summarizeToolCalls e cur s)) r)
        = {t \<in> set (arrays s cur). \<not> hasToolCall t} \<union> {summaryTurn summary})
     \<and> (\<forall>t\<in>set (arrays s cur). hasToolCall t \<longrightarrow>
           t \<notin> set (arrays (snd (summarizeToolCalls e cur s)) r))"
      using s1 s2 by blast
  qed
qed

lemma callTurn_mixed:
  "callTurn \<in> set conversation" "hasToolCall callTurn"
  "Text ''I will read the file'' \<in> set (parts callTurn)"
  by (simp_all add: conversation_def callTurn_def hasToolCall_def)

theorem compaction_drops_mixed_turns_witness:
  "4 \<le> length (filter hasToolCall (arrays (stateWith conversation noPermissions) 0))
   \<and> fst (summarizeToolCalls (envWith (alwaysReturns summaryResponse) deny) 0
            (stateWith conversation noPermissions)) = Inr 1
   \<and> callTurn \<in> set (arrays (stateWith conversation noPermissions) 0)
   \<and> hasToolCall callTurn
   \<and> Text ''I will read the file'' \<in> set (parts callTurn)
   \<and> callTurn \<notin> set (arrays (snd (summarizeToolCalls
            (envWith (alwaysReturns summaryResponse) deny) 0
            (stateWith conversation noPermissions))) 1)"
proof -
  have four: "4 \<le> length (filter hasToolCall (arrays (stateWith conversation noPermissions) 0))"
    by (simp add: stateWith_def arrayAt0_def conversation_tools)
  have arr: "arrays (stateWith conversation noPermissions) 0 = conversation"
    by (simp add: stateWith_def arrayAt0_def)
  show ?thesis
    using four compaction_example(1) callTurn_mixed
      compaction_drops_mixed_turns[of callTurn "stateWith conversation noPermissions" 0
        "envWith (alwaysReturns summaryResponse) deny" 1]
    by (simp add: arr)
qed

subsection \<open>What each step leaves unchanged\<close>

lemma generateContentWithRetry_state:
  "\<exists>n. snd (generateContentWithRetry e p m a s)
      = s\<lparr>requests := requests s @ replicate (Suc n) p, sleeps := sleeps s @ replicate n 60000\<rparr>"
proof (induction e p m a s rule: generateContentWithRetry.induct)
  case (1 e params maxRetries attempt s)
  let ?s1 = "s\<lparr>requests := requests s @ [params]\<rparr>"
  have one: "\<exists>n. ?s1 = s\<lparr>requests := requests s @ replicate (Suc n) params,
                           sleeps := sleeps s @ replicate n 60000\<rparr>"
    by (intro exI[of _ 0]) simp
  show ?case
  proof (cases "llm e (requests s @ [params])")
    case (Returns r)
    then show ?thesis using one
      by (subst generateContentWithRetry.simps) (simp add: generateContent_def)
  next
    case (Throws err)
    show ?thesis
    proof (cases "attempt < maxRetries \<and> isRateLimit err")
      case True
      have gc: "generateContent e params s = (Throws err, ?s1)"
        using Throws by (simp add: generateContent_def)
      from "1.IH"[OF _ gc[symmetric] refl] True
      obtain n where
        "snd (generateContentWithRetry e params maxRetries (attempt + 1) (sleep 60000 ?s1))
           = (sleep 60000 ?s1)\<lparr>requests := requests (sleep 60000 ?s1) @ replicate (Suc n) params,
                                  sleeps := sleeps (sleep 60000 ?s1) @ replicate n 60000\<rparr>"
        by auto
      then have "snd (generateContentWithRetry e params maxRetries attempt s)
           = s\<lparr>requests := requests s @ replicate (Suc (Suc n)) params,
               sleeps := sleeps s @ replicate (Suc n) 60000\<rparr>"
        using True Throws
        by (subst generateContentWithRetry.simps) (simp add: generateContent_def sleep_def)
      then show ?thesis by blast
    next
      case False
      then show ?thesis using Throws one
        by (subst generateContentWithRetry.simps) (auto simp: generateContent_def)
    qed
  qed
qed

lemma summarizeToolCalls_state:
  "\<exists>n sl ar na. snd (summarizeToolCalls e cur s)
      = s\<lparr>requests := requests s @ replicate n (summaryParams e s (filter hasToolCall (arrays s cur))),
          sleeps := sl, arrays := ar, nextAddr := na\<rparr>"
proof (cases "length (filter hasToolCall (arrays s cur)) < 4")
  case True
  have "s = s\<lparr>requests := requests s @ replicate 0 (summaryParams e s (filter hasToolCall (arrays s cur))),
          sleeps := sleeps s, arrays := arrays s, nextAddr := nextAddr s\<rparr>"
    by simp
  then show ?thesis using summarizeToolCalls_skip[OF True, of e] by (metis snd_conv)
next
  case False
  then have four: "4 \<le> length (filter hasToolCall (arrays s cur))" by simp
  let ?p = "summaryParams e s (filter hasToolCall (arrays s cur))"
  obtain res s1 where g: "generateContentWithRetry e ?p 3 0 s = (res, s1)"
    by (cases "generateContentWithRetry e ?p 3 0 s") auto
  from generateContentWithRetry_state[of e ?p 3 0 s] g obtain n where
    s1: "s1 = s\<lparr>requests := requests s @ replicate (Suc n) ?p, sleeps := sleeps s @ replicate n 60000\<rparr>"
    by auto
  show ?thesis
  proof (cases res)
    case (Inl err)
    then have "snd (summarizeToolCalls e cur s) = s1"
      using summarizeToolCalls_fires[OF four, of e] g by simp
    then have "snd (summarizeToolCalls e cur s) =
       s\<lparr>requests := requests s @ replicate (Suc n) ?p, sleeps := sleeps s @ replicate n 60000,
         arrays := arrays s, nextAddr := nextAddr s\<rparr>"
      using s1 by simp
    then show ?thesis by blast
  next
    case (Inr resp)
    then obtain x where "snd (summarizeToolCalls e cur s) =
        s1\<lparr>arrays := (arrays s1)(nextAddr s1 := x), nextAddr := Suc (nextAddr s1)\<rparr>"
      using summarizeToolCalls_fires[OF four, of e] g by auto
    then have "snd (summarizeToolCalls e cur s) =
       s\<lparr>requests := requests s @ replicate (Suc n) ?p, sleeps := sleeps s @ replicate n 60000,
         arrays := (arrays s1)(nextAddr s1 := x), nextAddr := Suc (nextAddr s1)\<rparr>"
      using s1 by simp
    then show ?thesis by blast
  qed
qed

lemma checkContext_fields:
  "files (snd (checkContext e hops cur s)) = files s
   \<and> permissions (snd (checkContext e hops cur s)) = permissions s
   \<and> promptLog (snd (checkContext e hops cur s)) = promptLog s
   \<and> toolLog (snd (checkContext e hops cur s)) = toolLog s
   \<and> (\<exists>rq. requests (snd (checkContext e hops cur s)) = requests s @ rq
          \<and> (\<forall>p\<in>set rq. \<not> hasConfig p))
   \<and> (\<exists>entry. contextLog (snd (checkContext e hops cur s)) = contextLog s @ [(hops, entry)])"
proof -
  let ?s1 = "logContextSize e (arrays s cur) hops s"
  obtain entry where s1: "?s1 = s\<lparr>contextLog := contextLog s @ [(hops, entry)]\<rparr>"
    by (simp add: logContextSize_def Let_def)
  let ?p = "summaryParams e ?s1 (filter hasToolCall (arrays ?s1 cur))"
  from summarizeToolCalls_state[of e cur ?s1] obtain n sl ar na where
    s2: "snd (summarizeToolCalls e cur ?s1) =
      ?s1\<lparr>requests := requests ?s1 @ replicate n ?p, sleeps := sl, arrays := ar, nextAddr := na\<rparr>"
    by blast
  have nc: "\<not> hasConfig ?p"
    by (simp add: summaryParams_def Let_def)
  show ?thesis
  proof (cases "calculateContentSize e (arrays ?s1 cur) > MAX_CONTEXT_CHARS")
    case False
    then have "snd (checkContext e hops cur s) = ?s1"
      by (simp add: checkContext_def Let_def)
    then show ?thesis by (cases entry) (simp add: s1)
  next
    case True
    obtain res s2' where r: "summarizeToolCalls e cur ?s1 = (res, s2')"
      by (cases "summarizeToolCalls e cur ?s1") auto
    have s2': "s2' = ?s1\<lparr>requests := requests ?s1 @ replicate n ?p,
          sleeps := sl, arrays := ar, nextAddr := na\<rparr>"
      using s2 r by simp
    have "\<exists>sm. snd (checkContext e hops cur s) = s2'\<lparr>sessionMessages := sm\<rparr>"
    proof (cases res)
      case (Inl err)
      then have "snd (checkContext e hops cur s) = s2'\<lparr>sessionMessages := sessionMessages s2'\<rparr>"
        using True r by (simp add: checkContext_def Let_def)
      then show ?thesis by blast
    next
      case (Inr c1)
      then have "snd (checkContext e hops cur s) = setCurrentSessionMessages c1 s2'"
        using True r by (simp add: checkContext_def Let_def)
      then show ?thesis
        by (cases "sessionMessages s2'")
           (auto simp: setCurrentSessionMessages_def intro: exI[of _ "sessionMessages s2'"])
    qed
    then obtain sm where fin: "snd (checkContext e hops cur s) = s2'\<lparr>sessionMessages := sm\<rparr>"
      by blast
    have rq: "requests (snd (checkContext e hops cur s)) = requests s @ replicate n ?p"
      unfolding fin s2' by (simp add: s1)
    have "\<forall>p\<in>set (replicate n ?p). \<not> hasConfig p" using nc by simp
    with rq have R: "\<exists>rq. requests (snd (checkContext e hops cur s)) = requests s @ rq
          \<and> (\<forall>p\<in>set rq. \<not> hasConfig p)" by blast
    have rest: "files (snd (checkContext e hops cur s)) = files s
      \<and> permissions (snd (checkContext e hops cur s)) = permissions s
      \<and> promptLog (snd (checkContext e hops cur s)) = promptLog s
      \<and> toolLog (snd (checkContext e hops cur s)) = toolLog s
      \<and> contextLog (snd (checkContext e hops cur s)) = contextLog s @ [(hops, entry)]"
      unfolding fin s2' by (simp add: s1)
    show ?thesis using R rest by blast
  qed
qed

lemma generateContentWithRetry_fields:
  "files (snd (generateContentWithRetry e p m a s)) = files s
   \<and> permissions (snd (generateContentWithRetry e p m a s)) = permissions s
   \<and> promptLog (snd (generateContentWithRetry e p m a s)) = promptLog s
   \<and> toolLog (snd (generateContentWithRetry e p m a s)) = toolLog s
   \<and> contextLog (snd (generateContentWithRetry e p m a s)) = contextLog s
   \<and> arrays (snd (generateContentWithRetry e p m a s)) = arrays s
   \<and> sessionMessages (snd (generateContentWithRetry e p m a s)) = sessionMessages s
   \<and> (\<exists>n. requests (snd (generateContentWithRetry e p m a s)) = requests s @ replicate (Suc n) p)"
proof -
  from generateContentWithRetry_state[of e p m a s] obtain n where
    st: "snd (generateContentWithRetry e p m a s)
      = s\<lparr>requests := requests s @ replicate (Suc n) p, sleeps := sleeps s @ replicate n 60000\<rparr>"
    by blast
  show ?thesis unfolding st by simp
qed

lemma push_fields [simp]:
  "files (push a m s) = files s" "permissions (push a m s) = permissions s"
  "promptLog (push a m s) = promptLog s" "toolLog (push a m s) = toolLog s"
  "requests (push a m s) = requests s" "contextLog (push a m s) = contextLog s"
  "sessionMessages (push a m s) = sessionMessages s"
  "arrays (push a m s) = (arrays s)(a := arrays s a @ [m])"
  by (simp_all add: push_def)

lemma addMessage_fields [simp]:
  "files (addMessage m s) = files s" "permissions (addMessage m s) = permissions s"
  "promptLog (addMessage m s) = promptLog s" "toolLog (addMessage m s) = toolLog s"
  "requests (addMessage m s) = requests s" "contextLog (addMessage m s) = contextLog s"
  "sessionMessages (addMessage m s) = sessionMessages s"
  by (simp_all add: addMessage_def split: option.splits)

lemma isAllowed_permissions: "permissions s' = permissions s \<Longrightarrow> isAllowed s' k = isAllowed s k"
  by (simp add: isAllowed_def getPermission_def)

lemma push_after_addMessage:
  "arrays (push cur m (addMessage m s)) cur =
     arrays s cur @ (if sessionMessages s = Some cur then [m, m] else [m])"
  by (simp add: addMessage_def push_def split: option.splits)

lemma dispatch_allowed:
  assumes "isAllowed s (permissionKeyOf fc)"
  shows "dispatch e projectRoot cur fc s =
     (let result = fst (executeTool (execSync e) projectRoot (toolNameOf fc) (argsOf fc) (files s));
          s2 = s\<lparr>files := snd (executeTool (execSync e) projectRoot (toolNameOf fc) (argsOf fc) (files s)),
                 toolLog := toolLog s @ [(toolNameOf fc, argsOf fc, result)]\<rparr>
      in push cur (toolResponse (toolNameOf fc) result)
           (addMessage (toolResponse (toolNameOf fc) result) s2))"
  using assms by (simp add: dispatch_def Let_def split: prod.splits)

lemma dispatch_denied:
  assumes "\<not> isAllowed s (permissionKeyOf fc)"
    and "\<not> granted (onPermissionPrompt e (length (promptLog s)) (permissionKeyOf fc) (argsOf fc)
                     (getToolDescription (toolNameOf fc) (argsOf fc)))"
  shows "dispatch e projectRoot cur fc s =
     push cur (denialMessage (toolNameOf fc))
       (addMessage (denialMessage (toolNameOf fc))
          (s\<lparr>promptLog := promptLog s @ [(permissionKeyOf fc, argsOf fc,
                 getToolDescription (toolNameOf fc) (argsOf fc))]\<rparr>))"
  using assms by (simp add: dispatch_def Let_def)

lemma dispatch_fields:
  "requests (dispatch e projectRoot cur fc s) = requests s"
  "contextLog (dispatch e projectRoot cur fc s) = contextLog s"
  by (simp_all add: dispatch_def Let_def setPermission_def split: prod.splits)

lemma dispatch_prompt:
  "\<not> isAllowed s (permissionKeyOf fc) \<Longrightarrow>
     promptLog (dispatch e projectRoot cur fc s) =
       promptLog s @ [(permissionKeyOf fc, argsOf fc, getToolDescription (toolNameOf fc) (argsOf fc))]"
  by (simp add: dispatch_def Let_def setPermission_def split: prod.splits)

lemma dispatch_permissions:
  "permissions (dispatch e projectRoot cur fc s) = permissions s
   \<or> permissions (dispatch e projectRoot cur fc s) =
        (permissions s)(permissionKeyOf fc \<mapsto> \<lparr>mode = Allow, allowed = None\<rparr>)"
  by (simp add: dispatch_def Let_def setPermission_def split: prod.splits)

lemma dispatch_keeps_allowed:
  assumes "isAllowed s k"
  shows "isAllowed (dispatch e projectRoot cur fc s) k
       \<and> (\<exists>new. promptLog (dispatch e projectRoot cur fc s) = promptLog s @ new
              \<and> (\<forall>x\<in>set new. fst x \<noteq> k))"
proof -
  have al: "isAllowed (dispatch e projectRoot cur fc s) k"
    using dispatch_permissions[of e projectRoot cur fc s] assms
    by (auto simp: isAllowed_def getPermission_def)
  show ?thesis
  proof (cases "isAllowed s (permissionKeyOf fc)")
    case True
    have "promptLog (dispatch e projectRoot cur fc s) = promptLog s @ []
            \<and> (\<forall>x\<in>set ([] :: (string \<times> tool_args \<times> string) list). fst x \<noteq> k)"
      by (simp add: dispatch_allowed[OF True] Let_def)
    then show ?thesis using al by blast
  next
    case False
    then have "permissionKeyOf fc \<noteq> k" using assms by auto
    then show ?thesis using al dispatch_prompt[OF False, of e projectRoot cur] by auto
  qed
qed

lemma dispatchAll_keeps_allowed:
  "isAllowed s k \<Longrightarrow>
     isAllowed (dispatchAll e projectRoot cur fcs s) k
       \<and> (\<exists>new. promptLog (dispatchAll e projectRoot cur fcs s) = promptLog s @ new
              \<and> (\<forall>x\<in>set new. fst x \<noteq> k))"
proof (induction fcs arbitrary: s)
  case Nil
  then show ?case by (simp add: dispatchAll_def)
next
  case (Cons fc fcs)
  let ?s1 = "dispatch e projectRoot cur fc s"
  from dispatch_keeps_allowed[OF Cons.prems, of e projectRoot cur fc]
  obtain new1 where a1: "isAllowed ?s1 k" and p1: "promptLog ?s1 = promptLog s @ new1"
    "\<forall>x\<in>set new1. fst x \<noteq> k" by blast
  from Cons.IH[OF a1] obtain new2 where
    a2: "isAllowed (dispatchAll e projectRoot cur fcs ?s1) k"
    and p2: "promptLog (dispatchAll e projectRoot cur fcs ?s1) = promptLog ?s1 @ new2"
      "\<forall>x\<in>set new2. fst x \<noteq> k" by blast
  have unf: "dispatchAll e projectRoot cur (fc # fcs) s = dispatchAll e projectRoot cur fcs ?s1"
    by (simp add: dispatchAll_def)
  have "promptLog (dispatchAll e projectRoot cur fcs ?s1) = promptLog s @ (new1 @ new2)
          \<and> (\<forall>x\<in>set (new1 @ new2). fst x \<noteq> k)"
    using p1 p2 by auto
  then show ?case unfolding unf using a2 by blast
qed

lemma dispatchAll_fields:
  "requests (dispatchAll e projectRoot cur fcs s) = requests s
   \<and> contextLog (dispatchAll e projectRoot cur fcs s) = contextLog s"
  by (induction fcs arbitrary: s) (simp_all add: dispatchAll_def dispatch_fields)

lemma hop_keeps_allowed:
  assumes "isAllowed s k"
  shows "isAllowed (snd (hop e projectRoot hops cur s)) k
       \<and> (\<exists>new. promptLog (snd (hop e projectRoot hops cur s)) = promptLog s @ new
              \<and> (\<forall>x\<in>set new. fst x \<noteq> k))"
proof -
  obtain r2 s2 where cc: "checkContext e hops cur s = (r2, s2)"
    by (cases "checkContext e hops cur s") auto
  have f2: "permissions s2 = permissions s" "promptLog s2 = promptLog s"
    using checkContext_fields[of e hops cur s] cc by simp_all
  have triv: "isAllowed s' k \<and> (\<exists>new. promptLog s' = promptLog s @ new \<and> (\<forall>x\<in>set new. fst x \<noteq> k))"
    if a: "permissions s' = permissions s" "promptLog s' = promptLog s" for s' :: agent_state
  proof -
    have "promptLog s' = promptLog s @ []
        \<and> (\<forall>x\<in>set ([] :: (string \<times> tool_args \<times> string) list). fst x \<noteq> k)"
      using a by simp
    then show ?thesis
      using assms a(1) isAllowed_permissions[of s' s k] by blast
  qed
  show ?thesis
  proof (cases r2)
    case (Inl err)
    have sn: "snd (hop e projectRoot hops cur s) = s2"
      by (simp add: hop_def cc Inl)
    show ?thesis unfolding sn by (rule triv) (fact f2)+
  next
    case (Inr cur1)
    obtain r3 s3 where g: "generateContentWithRetry e (conversationParams s2 cur1) 3 0 s2 = (r3, s3)"
      by (cases "generateContentWithRetry e (conversationParams s2 cur1) 3 0 s2") auto
    have f3: "permissions s3 = permissions s" "promptLog s3 = promptLog s"
      using generateContentWithRetry_fields[of e "conversationParams s2 cur1" 3 0 s2] g f2 by simp_all
    show ?thesis
    proof (cases r3)
      case (Inl err)
      have sn: "snd (hop e projectRoot hops cur s) = s3"
        by (simp add: hop_def cc Inr g Inl)
      show ?thesis unfolding sn by (rule triv) (fact f3)+
    next
      case resp: (Inr response)
      show ?thesis
      proof (cases "functionCalls response")
        case None
        have sn: "snd (hop e projectRoot hops cur s) = s3"
          by (simp add: hop_def cc Inr g resp None)
        show ?thesis unfolding sn by (rule triv) (fact f3)+
      next
        case (Some funcCalls)
        show ?thesis
        proof (cases "funcCalls = []")
          case True
          have sn: "snd (hop e projectRoot hops cur s) = s3"
            by (simp add: hop_def cc Inr g resp Some True)
          show ?thesis unfolding sn by (rule triv) (fact f3)+
        next
          case False
          let ?s4 = "case modelContent response of None \<Rightarrow> s3
                     | Some mc \<Rightarrow> push cur1 mc (addMessage mc s3)"
          have f4: "permissions ?s4 = permissions s" "promptLog ?s4 = promptLog s"
            using f3 by (simp_all split: option.splits)
          have a4: "isAllowed ?s4 k"
            using assms f4(1) by (simp add: isAllowed_def getPermission_def)
          have sn: "snd (hop e projectRoot hops cur s) = dispatchAll e projectRoot cur1 funcCalls ?s4"
            by (simp add: hop_def cc Inr g resp Some False Let_def)
          show ?thesis
            unfolding sn using dispatchAll_keeps_allowed[OF a4, of e projectRoot cur1 funcCalls]
            by (simp only: f4)
        qed
      qed
    qed
  qed
qed

lemma whileHops_keeps_allowed:
  "isAllowed s k \<Longrightarrow>
     isAllowed (snd (whileHops e projectRoot hops cur s)) k
       \<and> (\<exists>new. promptLog (snd (whileHops e projectRoot hops cur s)) = promptLog s @ new
              \<and> (\<forall>x\<in>set new. fst x \<noteq> k))"
proof (induction e projectRoot hops cur s rule: whileHops.induct)
  case (1 e projectRoot hops cur s)
  show ?case
  proof (cases "hops < MAX_HOPS")
    case False
    then have "snd (whileHops e projectRoot hops cur s) = s"
      by (subst whileHops.simps) simp
    moreover have "promptLog s = promptLog s @ []
        \<and> (\<forall>x\<in>set ([] :: (string \<times> tool_args \<times> string) list). fst x \<noteq> k)"
      by simp
    ultimately show ?thesis using "1.prems" by simp
  next
    case True
    obtain r s1 where h: "hop e projectRoot (hops + 1) cur s = (r, s1)"
      by (cases "hop e projectRoot (hops + 1) cur s") auto
    from hop_keeps_allowed[OF "1.prems", of e projectRoot "hops + 1" cur] h
    obtain new1 where a1: "isAllowed s1 k" and p1: "promptLog s1 = promptLog s @ new1"
      "\<forall>x\<in>set new1. fst x \<noteq> k" by auto
    show ?thesis
    proof (cases r)
      case (Thrown err)
      then have "snd (whileHops e projectRoot hops cur s) = s1"
        using True h by (subst whileHops.simps) simp
      then show ?thesis using a1 p1 by blast
    next
      case (Return answer)
      then have "snd (whileHops e projectRoot hops cur s) = s1"
        using True h by (subst whileHops.simps) simp
      then show ?thesis using a1 p1 by blast
    next
      case (Continue cur1)
      have unf: "whileHops e projectRoot hops cur s = whileHops e projectRoot (hops + 1) cur1 s1"
        using True h Continue by (subst whileHops.simps) simp
      from "1.IH"[OF True h[symmetric] Continue a1] obtain new2 where
        a2: "isAllowed (snd (whileHops e projectRoot (hops + 1) cur1 s1)) k"
        and p2: "promptLog (snd (whileHops e projectRoot (hops + 1) cur1 s1)) = promptLog s1 @ new2"
          "\<forall>x\<in>set new2. fst x \<noteq> k" by blast
      have "promptLog (snd (whileHops e projectRoot (hops + 1) cur1 s1)) = promptLog s @ (new1 @ new2)
              \<and> (\<forall>x\<in>set (new1 @ new2). fst x \<noteq> k)"
        using p1 p2 by auto
      then show ?thesis unfolding unf using a2 by blast
    qed
  qed
qed

subsection \<open>The permission gate\<close>

text \<open>
  Claim C7. When the class of a requested action is not allowed and the callback does
  not grant it, \<open>dispatch\<close> leaves the files, the tool log (no action was executed)
  and the permissions as they were, records the one prompt, and appends the denial
  turn, whose only part is the result \<^verbatim>\<open>Permission denied by user\<close>, to
  \<open>currentContents\<close> and to the session; when both are the same array the turn is
  there twice. A class without a record is not allowed, like a class in mode \<open>Ask\<close>.
\<close>

theorem permission_denied_not_executed:
  assumes notAllowed: "\<not> isAllowed s (permissionKeyOf fc)"
    and denied: "\<not> granted (onPermissionPrompt e (length (promptLog s)) (permissionKeyOf fc)
                     (argsOf fc) (getToolDescription (toolNameOf fc) (argsOf fc)))"
  shows "files (dispatch e projectRoot cur fc s) = files s
       \<and> toolLog (dispatch e projectRoot cur fc s) = toolLog s
       \<and> permissions (dispatch e projectRoot cur fc s) = permissions s
       \<and> promptLog (dispatch e projectRoot cur fc s) =
           promptLog s @ [(permissionKeyOf fc, argsOf fc,
                           getToolDescription (toolNameOf fc) (argsOf fc))]
       \<and> arrays (dispatch e projectRoot cur fc s) cur =
           arrays s cur @ (if sessionMessages s = Some cur
                           then [denialMessage (toolNameOf fc), denialMessage (toolNameOf fc)]
                           else [denialMessage (toolNameOf fc)])
       \<and> (\<forall>a. sessionMessages s = Some a \<and> a \<noteq> cur \<longrightarrow>
              arrays (dispatch e projectRoot cur fc s) a = arrays s a @ [denialMessage (toolNameOf fc)])
       \<and> denialMessage (toolNameOf fc) =
           \<lparr>role = ''user'',
            parts = [FunctionResponse (toolNameOf fc) (ResponseError ''Permission denied by user'')]\<rparr>
       \<and> (getPermission s k = None \<longrightarrow> \<not> isAllowed s k)
       \<and> (\<forall>perm. getPermission s k = Some perm \<and> mode perm = Ask \<longrightarrow> \<not> isAllowed s k)"
proof -
  let ?d = "denialMessage (toolNameOf fc)"
  let ?s0 = "s\<lparr>promptLog := promptLog s @ [(permissionKeyOf fc, argsOf fc,
                 getToolDescription (toolNameOf fc) (argsOf fc))]\<rparr>"
  have eq: "dispatch e projectRoot cur fc s = push cur ?d (addMessage ?d ?s0)"
    using notAllowed denied by (rule dispatch_denied)
  have arr: "arrays (push cur ?d (addMessage ?d ?s0)) cur =
               arrays s cur @ (if sessionMessages s = Some cur then [?d, ?d] else [?d])"
    using push_after_addMessage[of cur ?d ?s0] by simp
  have other: "\<forall>a. sessionMessages s = Some a \<and> a \<noteq> cur \<longrightarrow>
                 arrays (push cur ?d (addMessage ?d ?s0)) a = arrays s a @ [?d]"
    by (simp add: addMessage_def push_def)
  show ?thesis
    unfolding eq using arr other
    by (simp add: denialMessage_def isAllowed_def)
qed

lemma permissionKeyOf_writeCall: "permissionKeyOf writeCall = ''write_file''"
  by (simp add: permissionKeyOf_def toolNameOf_def writeCall_def TOOL_PERMISSIONS_def)

theorem permission_denied_not_executed_witness:
  "\<not> isAllowed (stateWith conversation noPermissions) (permissionKeyOf writeCall)
   \<and> \<not> granted (onPermissionPrompt (envWith (alwaysReturns readRequest) deny)
          (length (promptLog (stateWith conversation noPermissions))) (permissionKeyOf writeCall)
          (argsOf writeCall) (getToolDescription (toolNameOf writeCall) (argsOf writeCall)))
   \<and> files (dispatch (envWith (alwaysReturns readRequest) deny) [''proj''] 0 writeCall
          (stateWith conversation noPermissions)) = projWith ''foobaz''
   \<and> toolLog (dispatch (envWith (alwaysReturns readRequest) deny) [''proj''] 0 writeCall
          (stateWith conversation noPermissions)) = []
   \<and> arrays (dispatch (envWith (alwaysReturns readRequest) deny) [''proj''] 0 writeCall
          (stateWith conversation noPermissions)) 0 =
        conversation @ [denialMessage ''write_file'', denialMessage ''write_file'']"
proof -
  let ?s = "stateWith conversation noPermissions"
  let ?e = "envWith (alwaysReturns readRequest) deny"
  have a: "\<not> isAllowed ?s (permissionKeyOf writeCall)"
    by (simp add: isAllowed_def getPermission_def stateWith_def noPermissions_def)
  have b: "\<not> granted (onPermissionPrompt ?e (length (promptLog ?s)) (permissionKeyOf writeCall)
          (argsOf writeCall) (getToolDescription (toolNameOf writeCall) (argsOf writeCall)))"
    by (simp add: envWith_def answerWith_def deny_def)
  have tn: "toolNameOf writeCall = ''write_file''"
    by (simp add: toolNameOf_def writeCall_def)
  have st: "files ?s = projWith ''foobaz''" "toolLog ?s = []" "arrays ?s 0 = conversation"
    "sessionMessages ?s = Some 0"
    by (simp_all add: stateWith_def arrayAt0_def)
  show ?thesis
    using a b permission_denied_not_executed[OF a b, of "[''proj'']" 0]
    by (simp add: tn st)
qed

text \<open>The transition: a grant with \<open>alwaysAllow\<close> makes the class allowed.\<close>

lemma dispatch_transition:
  assumes "\<not> isAllowed s (permissionKeyOf fc)"
    and "granted (onPermissionPrompt e (length (promptLog s)) (permissionKeyOf fc)
                     (argsOf fc) (getToolDescription (toolNameOf fc) (argsOf fc)))"
    and "alwaysAllow (onPermissionPrompt e (length (promptLog s)) (permissionKeyOf fc)
                     (argsOf fc) (getToolDescription (toolNameOf fc) (argsOf fc)))"
  shows "isAllowed (dispatch e projectRoot cur fc s) (permissionKeyOf fc)"
  using assms
  by (simp add: dispatch_def Let_def setPermission_def isAllowed_def getPermission_def
      split: prod.splits)

lemma agenticLoop_keeps_allowed:
  assumes "isAllowed s k"
  shows "isAllowed (snd (agenticLoop e projectRoot initial s)) k
       \<and> (\<exists>new. promptLog (snd (agenticLoop e projectRoot initial s)) = promptLog s @ new
              \<and> (\<forall>x\<in>set new. fst x \<noteq> k))"
proof -
  obtain cur s1 where al: "alloc (arrays s initial) s = (cur, s1)"
    by (cases "alloc (arrays s initial) s") auto
  have f: "permissions s1 = permissions s" "promptLog s1 = promptLog s"
    using al by (auto simp: alloc_def)
  have a1: "isAllowed s1 k" using assms f(1) by (simp add: isAllowed_def getPermission_def)
  have un: "agenticLoop e projectRoot initial s = whileHops e projectRoot 0 cur s1"
    by (simp add: agenticLoop_def al)
  show ?thesis
    unfolding un using whileHops_keeps_allowed[OF a1, of e projectRoot 0 cur] by (simp only: f)
qed

lemma processMessage_keeps_allowed:
  assumes "isAllowed s k"
  shows "isAllowed (snd (processMessage e projectRoot userMessage s)) k
       \<and> (\<exists>new. promptLog (snd (processMessage e projectRoot userMessage s)) = promptLog s @ new
              \<and> (\<forall>x\<in>set new. fst x \<noteq> k))"
proof -
  let ?s0 = "addMessage \<lparr>role = ''user'', parts = [Text userMessage]\<rparr> s"
  obtain initial s1 where gm: "getMessages ?s0 = (initial, s1)"
    by (cases "getMessages ?s0") auto
  have f: "permissions s1 = permissions s" "promptLog s1 = promptLog s"
    using gm by (auto simp: getMessages_def alloc_def split: option.splits)
  have a1: "isAllowed s1 k" using assms f(1) by (simp add: isAllowed_def getPermission_def)
  obtain r s2 where ag: "agenticLoop e projectRoot initial s1 = (r, s2)"
    by (cases "agenticLoop e projectRoot initial s1") auto
  from agenticLoop_keeps_allowed[OF a1, of e projectRoot initial] ag
  obtain new where a2: "isAllowed s2 k" and p2: "promptLog s2 = promptLog s @ new"
    "\<forall>x\<in>set new. fst x \<noteq> k"
    using f by auto
  have "\<exists>s3. snd (processMessage e projectRoot userMessage s) = s3
          \<and> permissions s3 = permissions s2 \<and> promptLog s3 = promptLog s2"
    by (cases r) (simp_all add: processMessage_def gm ag)
  then obtain s3 where s3: "snd (processMessage e projectRoot userMessage s) = s3"
    "permissions s3 = permissions s2" "promptLog s3 = promptLog s2" by blast
  have "isAllowed s3 k" using a2 s3(2) by (simp add: isAllowed_def getPermission_def)
  then show ?thesis unfolding s3(1) using p2 s3(3) by auto
qed

text \<open>
  Claim C6. Let the class \<open>k\<close> be allowed. Then an action of that class is
  dispatched without a prompt and is executed: the tool log gains the call with the
  result of \<open>executeTool\<close>, and the files are the ones \<open>executeTool\<close> leaves. The
  class stays allowed after the dispatch of any action and after a whole
  \<open>processMessage\<close>, and none of the prompts made during that \<open>processMessage\<close> is
  for \<open>k\<close>.
\<close>

theorem allowed_class_never_prompts:
  assumes allowed: "isAllowed s k"
  shows "(permissionKeyOf fc = k \<longrightarrow>
            promptLog (dispatch e projectRoot cur fc s) = promptLog s
          \<and> toolLog (dispatch e projectRoot cur fc s) =
              toolLog s @ [(toolNameOf fc, argsOf fc,
                 fst (executeTool (execSync e) projectRoot (toolNameOf fc) (argsOf fc) (files s)))]
          \<and> files (dispatch e projectRoot cur fc s) =
              snd (executeTool (execSync e) projectRoot (toolNameOf fc) (argsOf fc) (files s)))
       \<and> isAllowed (dispatch e projectRoot cur fc s) k
       \<and> isAllowed (snd (processMessage e projectRoot userMessage s)) k
       \<and> (\<forall>x\<in>set (drop (length (promptLog s))
                       (promptLog (snd (processMessage e projectRoot userMessage s)))).
             fst x \<noteq> k)"
proof -
  have d: "permissionKeyOf fc = k \<longrightarrow>
            promptLog (dispatch e projectRoot cur fc s) = promptLog s
          \<and> toolLog (dispatch e projectRoot cur fc s) =
              toolLog s @ [(toolNameOf fc, argsOf fc,
                 fst (executeTool (execSync e) projectRoot (toolNameOf fc) (argsOf fc) (files s)))]
          \<and> files (dispatch e projectRoot cur fc s) =
              snd (executeTool (execSync e) projectRoot (toolNameOf fc) (argsOf fc) (files s))"
  proof
    assume "permissionKeyOf fc = k"
    then have "isAllowed s (permissionKeyOf fc)" using allowed by simp
    then show "promptLog (dispatch e projectRoot cur fc s) = promptLog s
          \<and> toolLog (dispatch e projectRoot cur fc s) =
              toolLog s @ [(toolNameOf fc, argsOf fc,
                 fst (executeTool (execSync e) projectRoot (toolNameOf fc) (argsOf fc) (files s)))]
          \<and> files (dispatch e projectRoot cur fc s) =
              snd (executeTool (execSync e) projectRoot (toolNameOf fc) (argsOf fc) (files s))"
      by (simp add: dispatch_allowed Let_def)
  qed
  from processMessage_keeps_allowed[OF allowed, of e projectRoot userMessage]
  obtain new where p: "isAllowed (snd (processMessage e projectRoot userMessage s)) k"
    "promptLog (snd (processMessage e projectRoot userMessage s)) = promptLog s @ new"
    "\<forall>x\<in>set new. fst x \<noteq> k" by blast
  have dr: "drop (length (promptLog s)) (promptLog (snd (processMessage e projectRoot userMessage s))) = new"
    using p(2) by simp
  show ?thesis
    using d dispatch_keeps_allowed[OF allowed, of e projectRoot cur fc] p(1,3)
    unfolding dr by blast
qed

lemma executeTool_readCall:
  "executeTool idleShell [''proj''] ''read_file'' (linesArgs None) (projWith ''foobaz'') =
     (Output ''foobaz'', projWith ''foobaz'')"
  by code_simp

theorem allowed_class_never_prompts_witness:
  "isAllowed (stateWith conversation readAllowed) ''read_file''
   \<and> permissionKeyOf readCall = ''read_file''
   \<and> promptLog (dispatch (envWith (alwaysReturns readRequest) deny) [''proj''] 0 readCall
        (stateWith conversation readAllowed)) = []
   \<and> toolLog (dispatch (envWith (alwaysReturns readRequest) deny) [''proj''] 0 readCall
        (stateWith conversation readAllowed)) =
        [(''read_file'', linesArgs None, Output ''foobaz'')]
   \<and> isAllowed (snd (processMessage (envWith (alwaysReturns readRequest) deny) [''proj'']
        ''read it'' (stateWith conversation readAllowed))) ''read_file''
   \<and> ''read_file'' \<notin> set (map fst (promptLog (snd (processMessage
        (envWith (alwaysReturns readRequest) deny) [''proj''] ''read it''
        (stateWith conversation readAllowed)))))"
proof -
  let ?s = "stateWith conversation readAllowed"
  let ?e = "envWith (alwaysReturns readRequest) deny"
  have a: "isAllowed ?s ''read_file''"
    by (simp add: isAllowed_def getPermission_def stateWith_def readAllowed_def)
  have k: "permissionKeyOf readCall = ''read_file''"
    by (simp add: permissionKeyOf_def toolNameOf_def readCall_def TOOL_PERMISSIONS_def)
  have tn: "toolNameOf readCall = ''read_file''" "argsOf readCall = linesArgs None"
    by (simp_all add: toolNameOf_def argsOf_def readCall_def)
  have st: "promptLog ?s = []" "toolLog ?s = []" "files ?s = projWith ''foobaz''"
    "execSync ?e = idleShell"
    by (simp_all add: stateWith_def envWith_def)
  show ?thesis
    using a k allowed_class_never_prompts[OF a, of readCall ?e "[''proj'']" 0 "''read it''"]
    by (auto simp: tn st executeTool_readCall)
qed

subsection \<open>The hop bound\<close>

lemma generateContentWithRetry_returns:
  "llm e (requests s @ [p]) = Returns r \<Longrightarrow>
     generateContentWithRetry e p m a s = (Inr r, s\<lparr>requests := requests s @ [p]\<rparr>)"
  by (subst generateContentWithRetry.simps) (simp add: generateContent_def)

lemma summarizeToolCalls_answered:
  assumes ans: "\<forall>reqs. \<exists>r. llm e reqs = Returns r"
  shows "(\<exists>a. fst (summarizeToolCalls e cur s) = Inr a)
       \<and> requests (snd (summarizeToolCalls e cur s)) =
           requests s @ (if length (filter hasToolCall (arrays s cur)) < 4 then []
                         else [summaryParams e s (filter hasToolCall (arrays s cur))])
       \<and> contextLog (snd (summarizeToolCalls e cur s)) = contextLog s"
proof (cases "length (filter hasToolCall (arrays s cur)) < 4")
  case True
  then show ?thesis by (simp add: summarizeToolCalls_skip)
next
  case False
  then have four: "4 \<le> length (filter hasToolCall (arrays s cur))" by simp
  let ?p = "summaryParams e s (filter hasToolCall (arrays s cur))"
  from ans obtain r where r: "llm e (requests s @ [?p]) = Returns r" by blast
  have g: "generateContentWithRetry e ?p 3 0 s = (Inr r, s\<lparr>requests := requests s @ [?p]\<rparr>)"
    using r by (rule generateContentWithRetry_returns)
  from summarizeToolCalls_fires[OF four, of e] g
  obtain x where "summarizeToolCalls e cur s =
     (Inr (nextAddr s), s\<lparr>requests := requests s @ [?p],
         arrays := (arrays s)(nextAddr s := x), nextAddr := Suc (nextAddr s)\<rparr>)"
    by auto
  then show ?thesis using False by simp
qed

lemma checkContext_answered:
  assumes ans: "\<forall>reqs. \<exists>r. llm e reqs = Returns r"
  shows "(\<exists>cur1. fst (checkContext e hops cur s) = Inr cur1)
       \<and> (\<exists>rq. requests (snd (checkContext e hops cur s)) = requests s @ rq
              \<and> length rq \<le> 1 \<and> (\<forall>q\<in>set rq. \<not> hasConfig q)
              \<and> (MAX_CONTEXT_CHARS < calculateContentSize e (arrays s cur)
                   \<and> 4 \<le> length (filter hasToolCall (arrays s cur)) \<longrightarrow> length rq = 1))
       \<and> map fst (contextLog (snd (checkContext e hops cur s))) = map fst (contextLog s) @ [hops]"
proof -
  let ?s1 = "logContextSize e (arrays s cur) hops s"
  obtain entry where s1: "?s1 = s\<lparr>contextLog := contextLog s @ [(hops, entry)]\<rparr>"
    by (simp add: logContextSize_def Let_def)
  have ar: "arrays ?s1 = arrays s" "requests ?s1 = requests s"
    "map fst (contextLog ?s1) = map fst (contextLog s) @ [hops]"
    by (simp_all add: s1)
  show ?thesis
  proof (cases "calculateContentSize e (arrays s cur) > MAX_CONTEXT_CHARS")
    case False
    then have "checkContext e hops cur s = (Inr cur, ?s1)"
      by (simp add: checkContext_def Let_def ar)
    then show ?thesis using ar False by simp
  next
    case True
    obtain res s2 where r: "summarizeToolCalls e cur ?s1 = (res, s2)"
      by (cases "summarizeToolCalls e cur ?s1") auto
    from summarizeToolCalls_answered[OF ans, of cur ?s1] r
    obtain a where a: "res = Inr a"
      and rq: "requests s2 = requests s @ (if length (filter hasToolCall (arrays s cur)) < 4 then []
                         else [summaryParams e ?s1 (filter hasToolCall (arrays s cur))])"
      and cl: "map fst (contextLog s2) = map fst (contextLog s) @ [hops]"
      by (auto simp: ar)
    have cc: "checkContext e hops cur s = (Inr a, setCurrentSessionMessages a s2)"
      using True r a by (simp add: checkContext_def Let_def ar)
    have f: "requests (setCurrentSessionMessages a s2) = requests s2"
      "contextLog (setCurrentSessionMessages a s2) = contextLog s2"
      by (simp_all add: setCurrentSessionMessages_def split: option.splits)
    have nc: "\<not> hasConfig (summaryParams e ?s1 (filter hasToolCall (arrays s cur)))"
      by (simp add: summaryParams_def Let_def)
    let ?rq = "(if length (filter hasToolCall (arrays s cur)) < 4 then []
                         else [summaryParams e ?s1 (filter hasToolCall (arrays s cur))])"
    have "requests (snd (checkContext e hops cur s)) = requests s @ ?rq
              \<and> length ?rq \<le> 1 \<and> (\<forall>q\<in>set ?rq. \<not> hasConfig q)
              \<and> (MAX_CONTEXT_CHARS < calculateContentSize e (arrays s cur)
                   \<and> 4 \<le> length (filter hasToolCall (arrays s cur)) \<longrightarrow> length ?rq = 1)"
      using cc f rq nc by simp
    then have R: "\<exists>rq. requests (snd (checkContext e hops cur s)) = requests s @ rq
              \<and> length rq \<le> 1 \<and> (\<forall>q\<in>set rq. \<not> hasConfig q)
              \<and> (MAX_CONTEXT_CHARS < calculateContentSize e (arrays s cur)
                   \<and> 4 \<le> length (filter hasToolCall (arrays s cur)) \<longrightarrow> length rq = 1)"
      by blast
    show ?thesis using R cc f cl by simp
  qed
qed

lemma hop_continues:
  assumes H: "\<forall>reqs. \<exists>r. llm e reqs = Returns r
                \<and> (reqs \<noteq> [] \<and> hasConfig (last reqs) \<longrightarrow>
                     (\<exists>fcs. functionCalls r = Some fcs \<and> fcs \<noteq> []))"
  shows "\<exists>cur1 p. fst (hop e projectRoot hops cur s) = Continue cur1
       \<and> requests (snd (hop e projectRoot hops cur s)) =
            requests (snd (checkContext e hops cur s)) @ [p] \<and> hasConfig p
       \<and> contextLog (snd (hop e projectRoot hops cur s)) =
            contextLog (snd (checkContext e hops cur s))"
proof -
  have ans: "\<forall>reqs. \<exists>r. llm e reqs = Returns r" using H by blast
  obtain r2 s2 where cc: "checkContext e hops cur s = (r2, s2)"
    by (cases "checkContext e hops cur s") auto
  from checkContext_answered[OF ans, of hops cur s] cc obtain cur1 where r2: "r2 = Inr cur1"
    by auto
  let ?p = "conversationParams s2 cur1"
  have cfg: "hasConfig ?p" by (simp add: conversationParams_def Let_def)
  from H obtain r where r: "llm e (requests s2 @ [?p]) = Returns r"
    and fc: "requests s2 @ [?p] \<noteq> [] \<and> hasConfig (last (requests s2 @ [?p])) \<longrightarrow>
                     (\<exists>fcs. functionCalls r = Some fcs \<and> fcs \<noteq> [])"
    by blast
  from fc cfg obtain fcs where fcs: "functionCalls r = Some fcs" "fcs \<noteq> []" by auto
  have g: "generateContentWithRetry e ?p 3 0 s2 = (Inr r, s2\<lparr>requests := requests s2 @ [?p]\<rparr>)"
    using r by (rule generateContentWithRetry_returns)
  let ?s3 = "s2\<lparr>requests := requests s2 @ [?p]\<rparr>"
  let ?s4 = "case modelContent r of None \<Rightarrow> ?s3 | Some mc \<Rightarrow> push cur1 mc (addMessage mc ?s3)"
  have f4: "requests ?s4 = requests s2 @ [?p]" "contextLog ?s4 = contextLog s2"
    by (simp_all split: option.splits)
  have h: "hop e projectRoot hops cur s = (Continue cur1, dispatchAll e projectRoot cur1 fcs ?s4)"
    by (simp add: hop_def cc r2 g fcs Let_def)
  have "fst (hop e projectRoot hops cur s) = Continue cur1
       \<and> requests (snd (hop e projectRoot hops cur s)) =
            requests (snd (checkContext e hops cur s)) @ [?p] \<and> hasConfig ?p
       \<and> contextLog (snd (hop e projectRoot hops cur s)) =
            contextLog (snd (checkContext e hops cur s))"
    using h cc cfg f4 dispatchAll_fields[of e projectRoot cur1 fcs ?s4] by simp
  then show ?thesis by blast
qed

lemma whileHops_exhausts:
  "(\<forall>reqs. \<exists>r. llm e reqs = Returns r
       \<and> (reqs \<noteq> [] \<and> hasConfig (last reqs) \<longrightarrow>
            (\<exists>fcs. functionCalls r = Some fcs \<and> fcs \<noteq> []))) \<Longrightarrow>
   hops \<le> MAX_HOPS \<Longrightarrow>
     fst (whileHops e projectRoot hops cur s) =
       Inr ''Maximum iterations reached. Please try a more specific request.''
     \<and> (\<exists>new. requests (snd (whileHops e projectRoot hops cur s)) = requests s @ new
            \<and> length (filter hasConfig new) = MAX_HOPS - hops
            \<and> length new \<le> 2 * (MAX_HOPS - hops))
     \<and> map fst (contextLog (snd (whileHops e projectRoot hops cur s))) =
         map fst (contextLog s) @ [hops + 1 ..< MAX_HOPS + 1]"
proof (induction e projectRoot hops cur s rule: whileHops.induct)
  case (1 e projectRoot hops cur s)
  note H = "1.prems"(1)
  have ans: "\<forall>reqs. \<exists>r. llm e reqs = Returns r" using H by blast
  show ?case
  proof (cases "hops < MAX_HOPS")
    case False
    then have eq: "hops = MAX_HOPS" using "1.prems"(2) by simp
    have w: "whileHops e projectRoot hops cur s =
               (Inr ''Maximum iterations reached. Please try a more specific request.'', s)"
      using False by (subst whileHops.simps) simp
    have "requests s = requests s @ [] \<and> length (filter hasConfig []) = MAX_HOPS - hops
            \<and> length ([] :: GenerateContentParams list) \<le> 2 * (MAX_HOPS - hops)"
      using eq by simp
    then have "\<exists>new. requests s = requests s @ new
            \<and> length (filter hasConfig new) = MAX_HOPS - hops
            \<and> length new \<le> 2 * (MAX_HOPS - hops)"
      by blast
    then show ?thesis unfolding w using eq by simp
  next
    case True
    obtain r s1 where h: "hop e projectRoot (hops + 1) cur s = (r, s1)"
      by (cases "hop e projectRoot (hops + 1) cur s") auto
    from hop_continues[OF H, of projectRoot "hops + 1" cur s] h
    obtain cur1 p where c: "r = Continue cur1"
      and rq1: "requests s1 = requests (snd (checkContext e (hops + 1) cur s)) @ [p]"
      and cfg: "hasConfig p"
      and cl1: "contextLog s1 = contextLog (snd (checkContext e (hops + 1) cur s))"
      by auto
    from checkContext_answered[OF ans, of "hops + 1" cur s]
    obtain rq where rq: "requests (snd (checkContext e (hops + 1) cur s)) = requests s @ rq"
        "length rq \<le> 1" "\<forall>q\<in>set rq. \<not> hasConfig q"
      and cl: "map fst (contextLog (snd (checkContext e (hops + 1) cur s))) =
                 map fst (contextLog s) @ [hops + 1]"
      by blast
    have unf: "whileHops e projectRoot hops cur s = whileHops e projectRoot (hops + 1) cur1 s1"
      using True h c by (subst whileHops.simps) simp
    have le: "hops + 1 \<le> MAX_HOPS" using True by simp
    from "1.IH"[OF True h[symmetric] c H le]
    obtain new2 where
      res: "fst (whileHops e projectRoot (hops + 1) cur1 s1) =
              Inr ''Maximum iterations reached. Please try a more specific request.''"
      and n2: "requests (snd (whileHops e projectRoot (hops + 1) cur1 s1)) = requests s1 @ new2"
        "length (filter hasConfig new2) = MAX_HOPS - (hops + 1)"
        "length new2 \<le> 2 * (MAX_HOPS - (hops + 1))"
      and cl2: "map fst (contextLog (snd (whileHops e projectRoot (hops + 1) cur1 s1))) =
                  map fst (contextLog s1) @ [hops + 1 + 1 ..< MAX_HOPS + 1]"
      by blast
    have frq: "filter hasConfig rq = []" using rq(3) by (simp add: filter_empty_conv)
    have L0: "requests (snd (whileHops e projectRoot (hops + 1) cur1 s1)) = requests s @ (rq @ [p] @ new2)"
      using n2(1) rq1 rq(1) by simp
    have L1: "length (filter hasConfig (rq @ [p] @ new2)) = MAX_HOPS - hops"
      using n2(2) frq cfg True by simp
    have L2: "length (rq @ [p] @ new2) \<le> 2 * (MAX_HOPS - hops)"
      using n2(3) rq(2) True by simp
    have "requests (snd (whileHops e projectRoot (hops + 1) cur1 s1)) = requests s @ (rq @ [p] @ new2)
            \<and> length (filter hasConfig (rq @ [p] @ new2)) = MAX_HOPS - hops
            \<and> length (rq @ [p] @ new2) \<le> 2 * (MAX_HOPS - hops)"
      using L0 L1 L2 by blast
    then have N: "\<exists>new. requests (snd (whileHops e projectRoot (hops + 1) cur1 s1)) = requests s @ new
            \<and> length (filter hasConfig new) = MAX_HOPS - hops
            \<and> length new \<le> 2 * (MAX_HOPS - hops)"
      by blast
    have "[hops + 1 ..< MAX_HOPS + 1] = (hops + 1) # [hops + 1 + 1 ..< MAX_HOPS + 1]"
      using True by (simp add: upt_conv_Cons)
    then have C: "map fst (contextLog (snd (whileHops e projectRoot (hops + 1) cur1 s1))) =
         map fst (contextLog s) @ [hops + 1 ..< MAX_HOPS + 1]"
      using cl2 cl1 cl by simp
    show ?thesis unfolding unf using res N C by blast
  qed
qed

text \<open>
  Claim C2, as the code has it. Let the completion boundary answer every request, and
  answer every conversation request (the requests with a configuration) with at least
  one requested action. Then \<open>agenticLoop\<close> returns the exhaustion message after
  hops 1 to 25: it has sent exactly 25 conversation requests, and with the
  summarisation requests of the compactions at most 50 requests in all.
  \<open>processMessage\<close> returns the same message.
\<close>

theorem hop_bound:
  assumes "\<forall>reqs. \<exists>r. llm e reqs = Returns r
             \<and> (reqs \<noteq> [] \<and> hasConfig (last reqs) \<longrightarrow>
                  (\<exists>fcs. functionCalls r = Some fcs \<and> fcs \<noteq> []))"
  shows "fst (agenticLoop e projectRoot initial s) =
           Inr ''Maximum iterations reached. Please try a more specific request.''
       \<and> (\<exists>new. requests (snd (agenticLoop e projectRoot initial s)) = requests s @ new
              \<and> length (filter hasConfig new) = 25 \<and> length new \<le> 50)
       \<and> map fst (contextLog (snd (agenticLoop e projectRoot initial s))) =
           map fst (contextLog s) @ [1 ..< 26]
       \<and> fst (processMessage e projectRoot userMessage s) =
           Inr ''Maximum iterations reached. Please try a more specific request.''"
proof -
  have loop: "fst (agenticLoop e projectRoot i t) =
           Inr ''Maximum iterations reached. Please try a more specific request.''
       \<and> (\<exists>new. requests (snd (agenticLoop e projectRoot i t)) = requests t @ new
              \<and> length (filter hasConfig new) = 25 \<and> length new \<le> 50)
       \<and> map fst (contextLog (snd (agenticLoop e projectRoot i t))) =
           map fst (contextLog t) @ [1 ..< 26]" for i t
  proof -
    obtain cur s1 where al: "alloc (arrays t i) t = (cur, s1)"
      by (cases "alloc (arrays t i) t") auto
    have f: "requests s1 = requests t" "contextLog s1 = contextLog t"
      using al by (auto simp: alloc_def)
    have un: "agenticLoop e projectRoot i t = whileHops e projectRoot 0 cur s1"
      by (simp add: agenticLoop_def al)
    show ?thesis
      unfolding un using whileHops_exhausts[OF assms, of 0 projectRoot cur s1]
      by (simp add: f MAX_HOPS_def)
  qed
  let ?s0 = "addMessage \<lparr>role = ''user'', parts = [Text userMessage]\<rparr> s"
  obtain i0 s1 where gm: "getMessages ?s0 = (i0, s1)"
    by (cases "getMessages ?s0") auto
  obtain r s2 where ag: "agenticLoop e projectRoot i0 s1 = (r, s2)"
    by (cases "agenticLoop e projectRoot i0 s1") auto
  have "r = Inr ''Maximum iterations reached. Please try a more specific request.''"
    using loop[of i0 s1] ag by simp
  then have pm: "fst (processMessage e projectRoot userMessage s) =
           Inr ''Maximum iterations reached. Please try a more specific request.''"
    by (simp add: processMessage_def gm ag)
  show ?thesis using loop[of initial s] pm by blast
qed

lemma readRequest_always:
  "\<forall>reqs. \<exists>r. llm (envWith (alwaysReturns readRequest) deny) reqs = Returns r
             \<and> (reqs \<noteq> [] \<and> hasConfig (last reqs) \<longrightarrow>
                  (\<exists>fcs. functionCalls r = Some fcs \<and> fcs \<noteq> []))"
  by (simp add: envWith_def alwaysReturns_def readRequest_def)

theorem hop_bound_witness:
  "fst (agenticLoop (envWith (alwaysReturns readRequest) deny) [''proj''] 0
          (stateWith conversation noPermissions)) =
     Inr ''Maximum iterations reached. Please try a more specific request.''
   \<and> map fst (contextLog (snd (agenticLoop (envWith (alwaysReturns readRequest) deny) [''proj''] 0
          (stateWith conversation noPermissions)))) = [1 ..< 26]"
  using hop_bound[OF readRequest_always, of "[''proj'']" 0 "stateWith conversation noPermissions"]
  by (simp add: stateWith_def)

text \<open>
  The claim as the specification words it counts 25 calls of the completion boundary.
  On a conversation that is over the context limit and has four tool turns, the first
  hop sends a summarisation request before its conversation request, and the loop
  makes more than 25 calls.
\<close>

lemma bigConversation_size:
  "MAX_CONTEXT_CHARS < calculateContentSize e bigConversation"
  by (simp add: calculateContentSize_def bigConversation_def userTurn_def MAX_CONTEXT_CHARS_def)

lemma bigConversation_tools: "4 \<le> length (filter hasToolCall bigConversation)"
  by (simp add: bigConversation_def conversation_tools userTurn_def hasToolCall_def)

theorem hop_calls_counterexample:
  "requests (stateWith bigConversation noPermissions) = []
   \<and> 25 < length (requests (snd (agenticLoop (envWith (alwaysReturns readRequest) deny)
            [''proj''] 0 (stateWith bigConversation noPermissions))))"
proof -
  let ?e = "envWith (alwaysReturns readRequest) deny"
  let ?s = "stateWith bigConversation noPermissions"
  have ans: "\<forall>reqs. \<exists>r. llm ?e reqs = Returns r"
    using readRequest_always by blast
  obtain cur s1 where al: "alloc (arrays ?s 0) ?s = (cur, s1)"
    by (cases "alloc (arrays ?s 0) ?s") auto
  have s1: "requests s1 = []" "arrays s1 cur = bigConversation"
    using al by (auto simp: alloc_def stateWith_def arrayAt0_def)
  have un: "agenticLoop ?e [''proj''] 0 ?s = whileHops ?e [''proj''] 0 cur s1"
    by (simp add: agenticLoop_def al)
  obtain r s2 where h: "hop ?e [''proj''] (0 + 1) cur s1 = (r, s2)"
    by (cases "hop ?e [''proj''] (0 + 1) cur s1") auto
  from hop_continues[OF readRequest_always, of "[''proj'']" "0 + 1" cur s1] h
  obtain cur1 p where c: "r = Continue cur1"
    and rq1: "requests s2 = requests (snd (checkContext ?e (0 + 1) cur s1)) @ [p]"
    by auto
  from checkContext_answered[OF ans, of "0 + 1" cur s1] bigConversation_size[of ?e]
    bigConversation_tools
  obtain rq where rq: "requests (snd (checkContext ?e (0 + 1) cur s1)) = requests s1 @ rq"
    "length rq = 1"
    by (auto simp: s1)
  have l2: "length (requests s2) = 2" using rq1 rq s1 by simp
  have unf: "whileHops ?e [''proj''] 0 cur s1 = whileHops ?e [''proj''] (0 + 1) cur1 s2"
    using h c by (subst whileHops.simps) (simp add: MAX_HOPS_def)
  have le: "0 + 1 \<le> MAX_HOPS" by (simp add: MAX_HOPS_def)
  from whileHops_exhausts[OF readRequest_always le, of "[''proj'']" cur1 s2]
  obtain new where n: "requests (snd (whileHops ?e [''proj''] (0 + 1) cur1 s2)) = requests s2 @ new"
    "length (filter hasConfig new) = MAX_HOPS - (0 + 1)"
    by blast
  have "length (filter hasConfig new) \<le> length new" by (rule length_filter_le)
  then have "24 \<le> length new" using n(2) by (simp add: MAX_HOPS_def)
  then have "25 < length (requests (snd (agenticLoop ?e [''proj''] 0 ?s)))"
    unfolding un unf n(1) using l2 by simp
  then show ?thesis by (simp add: stateWith_def)
qed

end
